theory Spec2Isabelle
  imports Main "HOL-Library.AList"
begin

section \<open>Data model of the import scripts\<close>

text \<open>
  A cell of the pandas frame read from the Parquet snapshot. \<open>PyNone\<close> is Python's
  \<open>None\<close>, \<open>NaN\<close> the floating-point missing value (the only value for which
  \<open>v == v\<close> is false), the other constructors are ordinary values.
\<close>

datatype cell = PyNone | NaN | Str string | Num int | Bool bool

text \<open>
  A row is the list of (column label, cell) pairs in column order; a frame is the list of
  its rows. A Python dictionary is an association list in insertion order, and the
  assignment \<open>d[k] = v\<close> is \<open>AList.update k v d\<close>: an existing key keeps its place and
  takes the new value, a new key is put at the end.
\<close>

type_synonym row = "(string \<times> cell) list"
type_synonym frame = "row list"
type_synonym pydict = "(string \<times> cell) list"

datatype error = ZeroDivisionError | AttributeError | StopIteration | OSError | DatabaseError

subsection \<open>import-simple.py, lines 40 to 46: missing values and the name column\<close>

text \<open>\<open>df.replace({np.nan: None})\<close>, cell by cell.\<close>

definition replace_nan :: "cell \<Rightarrow> cell" where
  "replace_nan v = (if v = NaN then PyNone else v)"

definition df_replace :: "frame \<Rightarrow> frame" where
  "df_replace df = map (map (\<lambda>(k, v). (k, replace_nan v))) df"

text \<open>
  Python's \<open>s.split(sep)\<close> for a one-character separator: the pieces between the
  separators, never an empty list (\<open>''.split('$')\<close> is \<open>['']\<close>).
\<close>

fun py_split :: "char \<Rightarrow> string \<Rightarrow> string list" where
  "py_split sep [] = [[]]"
| "py_split sep (c # cs) =
     (if c = sep then [] # py_split sep cs
      else (case py_split sep cs of
              [] \<Rightarrow> [[c]]
            | p # ps \<Rightarrow> (c # p) # ps))"

text \<open>
  The \<open>.str\<close> accessor of pandas works on the string cells of a column and leaves a
  missing value wherever the cell is not a string: \<open>None\<close> stays \<open>None\<close>, every other
  cell becomes \<open>NaN\<close>. \<open>.str.split('$')\<close> followed by \<open>.str[0]\<close> is element 0 of the
  split, and \<open>NaN\<close> were the list empty.
\<close>

definition str_split_first :: "cell \<Rightarrow> cell" where
  "str_split_first v =
     (case v of
        Str s \<Rightarrow> (case py_split (CHR ''$'') s of [] \<Rightarrow> NaN | p # ps \<Rightarrow> Str p)
      | PyNone \<Rightarrow> PyNone
      | _ \<Rightarrow> NaN)"

text \<open>
  Line 46 runs when \<open>'organisationsnamn' in df.columns\<close> and stands outside every
  \<open>try\<close>. \<open>df['organisationsnamn'].str\<close> raises \<open>AttributeError\<close> in two cases.
  When the label occurs twice, \<open>df[...]\<close> is a frame, which has no \<open>.str\<close>. Otherwise
  pandas infers the type of the column from its cells other than \<open>None\<close> and \<open>NaN\<close>
  and refuses the accessor when there are such cells and they are all integers or all
  booleans (a column read from Parquet has one type: this is a name column that does not
  hold strings). A column with no such cell, or with a string among them, is accepted.
\<close>

definition missing :: "cell \<Rightarrow> bool" where
  "missing v = (v = PyNone \<or> v = NaN)"

definition is_Num :: "cell \<Rightarrow> bool" where
  "is_Num v = (case v of Num i \<Rightarrow> True | _ \<Rightarrow> False)"

definition is_Bool :: "cell \<Rightarrow> bool" where
  "is_Bool v = (case v of Bool b \<Rightarrow> True | _ \<Rightarrow> False)"

definition name_cells :: "frame \<Rightarrow> cell list" where
  "name_cells df =
     concat (map (\<lambda>r. map snd (filter (\<lambda>(k, v). k = ''organisationsnamn'') r)) df)"

definition label_twice :: "frame \<Rightarrow> bool" where
  "label_twice df =
     (\<exists>r \<in> set df. 1 < length (filter (\<lambda>(k, v). k = ''organisationsnamn'') r))"

definition str_accessor_ok :: "cell list \<Rightarrow> bool" where
  "str_accessor_ok cells =
     (let vs = filter (\<lambda>v. \<not> missing v) cells
      in vs = [] \<or> \<not> (list_all is_Num vs \<or> list_all is_Bool vs))"

definition clean_organisationsnamn :: "frame \<Rightarrow> error + frame" where
  "clean_organisationsnamn df =
     (if label_twice df \<or> \<not> str_accessor_ok (name_cells df) then Inl AttributeError
      else Inr (map (map (\<lambda>(k, v). if k = ''organisationsnamn'' then (k, str_split_first v)
                                 else (k, v))) df))"

subsection \<open>import-simple.py, lines 57 to 66: the records of one batch\<close>

text \<open>
  \<open>row.to_dict()\<close>: the dictionary built from the pairs of the row, in order (a label
  that occurred twice would keep its first place and its last value).
\<close>

definition to_dict :: "row \<Rightarrow> pydict" where
  "to_dict r = foldl (\<lambda>d (k, v). AList.update k v d) [] r"

text \<open>Python's \<open>v == v\<close>: false for \<open>NaN\<close> only.\<close>

definition py_eq_self :: "cell \<Rightarrow> bool" where
  "py_eq_self v = (v \<noteq> NaN)"

text \<open>
  The inner loop \<open>for k, v in row.to_dict().items()\<close> with its test
  \<open>v is not None and v == v\<close> and the assignment \<open>record[k] = v\<close>.
\<close>

fun add_fields :: "(string \<times> cell) list \<Rightarrow> pydict \<Rightarrow> pydict" where
  "add_fields [] rcd = rcd"
| "add_fields ((k, v) # items) rcd =
     add_fields items (if v \<noteq> PyNone \<and> py_eq_self v then AList.update k v rcd else rcd)"

definition row_record :: "row \<Rightarrow> pydict" where
  "row_record r = add_fields (to_dict r) []"

text \<open>
  The loop over \<open>batch.iterrows()\<close>: \<open>if record: records.append(record)\<close>, so an
  empty dictionary is left out and the others keep the order of the rows.
\<close>

fun batch_records :: "row list \<Rightarrow> pydict list" where
  "batch_records [] = []"
| "batch_records (r # rows) =
     (let rcd = row_record r
      in if rcd \<noteq> [] then rcd # batch_records rows else batch_records rows)"

subsection \<open>import-simple.py, lines 48 to 89: the batch loop and the summary\<close>

text \<open>
  The sink is outside the script: \<open>supabase.table('companies').upsert(records,
  on_conflict='organisationsidentitet').execute()\<close> either returns or raises. It is a
  parameter of the model: a function from the records, the conflict column and the sink's
  state to a reply,
  \<open>Done\<close> with the new state when the call returns, \<open>Raised\<close> with the state the sink
  is left in when the call raises.
\<close>

datatype 's reply = Done 's | Raised 's

type_synonym 's upsert_api = "pydict list \<Rightarrow> string \<Rightarrow> 's \<Rightarrow> 's reply"

definition on_conflict :: string where
  "on_conflict = ''organisationsidentitet''"

text \<open>
  What the script prints for a batch: the line \<open>Batch i/total: Importing k rows\<close>,
  then either the progress \<open>(imported/total_rows = p%)\<close> or the error line.
\<close>

datatype event = Importing nat nat nat | Progress nat nat | ErrorLine

text \<open>
  The variables of \<open>main\<close> that the loop changes, the calls made to the sink (the
  \<open>records\<close> argument of each, in call order), the lines printed, and the sink.
\<close>

record 's run =
  imported :: nat
  errors :: nat
  calls :: "pydict list list"
  printed :: "event list"
  sink :: 's

definition BATCH_SIZE :: nat where
  "BATCH_SIZE = 500"

text \<open>
  One turn of \<open>for i in range(0, total_rows, BATCH_SIZE)\<close>; \<open>df.iloc[i:i+BATCH_SIZE]\<close>
  is \<open>take n (drop i df)\<close>. The \<open>try\<close> holds the call to the sink and the two
  statements after it; \<open>except Exception\<close> counts one error and goes on.
\<close>

definition upsert_batch :: "'s upsert_api \<Rightarrow> nat \<Rightarrow> frame \<Rightarrow> nat \<Rightarrow> 's run \<Rightarrow> 's run" where
  "upsert_batch api n df i st =
     (let batch_num = i div n + 1;
          total_batches = (length df + n - 1) div n;
          batch = take n (drop i df);
          records = batch_records batch;
          line = Importing batch_num total_batches (length records)
      in case api records on_conflict (sink st) of
           Done s \<Rightarrow>
             st\<lparr>imported := imported st + length records,
                calls := calls st @ [records],
                printed := printed st @ [line, Progress (imported st + length records) (length df)],
                sink := s\<rparr>
         | Raised s \<Rightarrow>
             st\<lparr>errors := errors st + 1,
                calls := calls st @ [records],
                printed := printed st @ [line, ErrorLine],
                sink := s\<rparr>)"

function upsert_loop :: "'s upsert_api \<Rightarrow> nat \<Rightarrow> frame \<Rightarrow> nat \<Rightarrow> 's run \<Rightarrow> 's run" where
  "upsert_loop api n df i st =
     (if 0 < n \<and> i < length df
      then upsert_loop api n df (i + n) (upsert_batch api n df i st)
      else st)"
  by pat_completeness auto
termination
  by (relation "measure (\<lambda>(api, n, df, i, st). length df - i)") auto

text \<open>
  \<open>main\<close> from line 37 on, for the frame \<open>df0\<close> read from the Parquet file (column
  labels already lower-cased, the index column dropped). Line 46 can raise
  \<open>AttributeError\<close>, and with a batch size of 0 line 49 divides by zero; nothing catches
  either, so the process ends there, before any call to the sink and without a summary.
\<close>

definition import_batches :: "'s upsert_api \<Rightarrow> nat \<Rightarrow> frame \<Rightarrow> 's \<Rightarrow> error + 's run" where
  "import_batches api n df0 s =
     (case clean_organisationsnamn (df_replace df0) of
        Inl e \<Rightarrow> Inl e
      | Inr df \<Rightarrow>
          if n = 0 then Inl ZeroDivisionError
          else Inr (upsert_loop api n df 0
                      \<lparr>imported = 0, errors = 0, calls = [], printed = [], sink = s\<rparr>))"

definition main :: "'s upsert_api \<Rightarrow> frame \<Rightarrow> 's \<Rightarrow> error + 's run" where
  "main api df0 s = import_batches api BATCH_SIZE df0 s"

text \<open>The summary block of lines 85 to 89: \<open>Imported\<close> and \<open>Errors\<close>.\<close>

definition summary :: "'s run \<Rightarrow> nat \<times> nat" where
  "summary st = (imported st, errors st)"

text \<open>
  The exit status of the process: 0 when \<open>main\<close> returns, 1 when an exception leaves it.
\<close>

definition exit_code :: "error + 'a \<Rightarrow> nat" where
  "exit_code r = (case r of Inl e \<Rightarrow> 1 | Inr x \<Rightarrow> 0)"

subsection \<open>parquet-to-csv.py and import-csv-direct.py\<close>

text \<open>
  \<open>na_rep='\\N'\<close> in \<open>df.to_csv\<close> and \<open>NULL '\\N'\<close> in the \<open>COPY\<close> statement are both the
  two characters backslash and \<open>N\<close>.
\<close>

definition na_rep :: string where
  "na_rep = [CHR 0x5C, CHR ''N'']"

definition copy_null :: string where
  "copy_null = [CHR 0x5C, CHR ''N'']"

fun digit_char :: "nat \<Rightarrow> char" where
  "digit_char d = char_of (48 + d)"

function show_nat :: "nat \<Rightarrow> string" where
  "show_nat n = (if n < 10 then [digit_char n] else show_nat (n div 10) @ [digit_char (n mod 10)])"
  by pat_completeness auto
termination
  by (relation "measure id") auto

definition show_int :: "int \<Rightarrow> string" where
  "show_int i = (if i < 0 then CHR ''-'' # show_nat (nat (- i)) else show_nat (nat i))"

text \<open>
  The writer quotes a text field that holds the delimiter, the quote character or a line
  break, doubling each quote character inside it.
\<close>

definition csv_quote :: "string \<Rightarrow> string" where
  "csv_quote s =
     (if \<exists>c \<in> set s. c = CHR '','' \<or> c = CHR 0x22 \<or> c = CHR 0x0A \<or> c = CHR 0x0D
      then [CHR 0x22] @ concat (map (\<lambda>c. if c = CHR 0x22 then [c, c] else [c]) s) @ [CHR 0x22]
      else s)"

text \<open>
  One field of the file written by \<open>df.to_csv(output_file, index=False, na_rep='\\N')\<close>:
  a missing cell (\<open>None\<close> or \<open>NaN\<close>) is written as \<open>na_rep\<close>. \<open>single\<close> says that
  the row has this one field only; the writer then quotes an empty text.
\<close>

definition csv_field :: "bool \<Rightarrow> cell \<Rightarrow> string" where
  "csv_field single v =
     (case v of
        PyNone \<Rightarrow> na_rep
      | NaN \<Rightarrow> na_rep
      | Str s \<Rightarrow> (if s = [] \<and> single then [CHR 0x22, CHR 0x22] else csv_quote s)
      | Num i \<Rightarrow> show_int i
      | Bool b \<Rightarrow> (if b then ''True'' else ''False''))"

text \<open>
  The database connection of import-csv-direct.py. psycopg2 opens a transaction with the
  first statement: \<open>working\<close> is the table as the open transaction sees it,
  \<open>committed\<close> the table as the sink holds it; \<open>conn.commit()\<close> makes the first the
  second, and a process that ends without it leaves \<open>committed\<close> as it was.
\<close>

record 't connection =
  committed :: 't
  working :: 't

definition commit :: "'t connection \<Rightarrow> 't connection" where
  "commit c = c\<lparr>committed := working c\<rparr>"

text \<open>
  What the script meets outside itself: whether \<open>psycopg2.connect\<close> succeeds, the lines
  of the CSV file (\<open>None\<close> when it cannot be opened), the server's \<open>COPY\<close> (from the
  lines streamed and the table the transaction sees to the table it then sees, and an
  error if the statement raised), whether \<open>conn.commit()\<close> succeeds, and the answer to
  \<open>SELECT COUNT(*)\<close> (\<open>None\<close> when the query raises).
\<close>

record 't world =
  connect_ok :: bool
  csv_file :: "string list option"
  copy_expert :: "string list \<Rightarrow> 't \<Rightarrow> 't \<times> error option"
  commit_ok :: bool
  select_count :: "'t \<Rightarrow> nat option"

text \<open>
  The outcome of a run: the exit status, the table the sink holds afterwards, the lines
  handed to \<open>copy_expert\<close> (if it was called) and the count printed (if any).
\<close>

record 't outcome =
  exit_status :: nat
  table :: 't
  streamed :: "string list option"
  reported :: "nat option"

text \<open>
  The script: every exception inside the \<open>try\<close> ends in \<open>exit(1)\<close>. \<open>next(f)\<close> takes
  the first line off the file (and raises \<open>StopIteration\<close> on an empty file, which
  \<open>except Exception\<close> catches); \<open>copy_expert\<close> then reads the rest of \<open>f\<close>.
\<close>

definition import_csv_direct :: "'t world \<Rightarrow> 't \<Rightarrow> 't outcome" where
  "import_csv_direct w t0 =
     (if \<not> connect_ok w
      then \<lparr>exit_status = 1, table = t0, streamed = None, reported = None\<rparr>
      else
        let conn = \<lparr>committed = t0, working = t0\<rparr>
        in case csv_file w of
             None \<Rightarrow> \<lparr>exit_status = 1, table = committed conn, streamed = None, reported = None\<rparr>
           | Some [] \<Rightarrow> \<lparr>exit_status = 1, table = committed conn, streamed = None, reported = None\<rparr>
           | Some (header # rest) \<Rightarrow>
               (let (t1, err) = copy_expert w rest (working conn);
                    conn1 = conn\<lparr>working := t1\<rparr>
                in case err of
                     Some e \<Rightarrow>
                       \<lparr>exit_status = 1, table = committed conn1, streamed = Some rest, reported = None\<rparr>
                   | None \<Rightarrow>
                       if \<not> commit_ok w
                       then \<lparr>exit_status = 1, table = committed conn1, streamed = Some rest,
                             reported = None\<rparr>
                       else
                         (let conn2 = commit conn1
                          in case select_count w (working conn2) of
                               None \<Rightarrow>
                                 \<lparr>exit_status = 1, table = committed conn2, streamed = Some rest,
                                  reported = None\<rparr>
                             | Some n \<Rightarrow>
                                 \<lparr>exit_status = 0, table = committed conn2, streamed = Some rest,
                                  reported = Some n\<rparr>)))"

subsection \<open>The batches and the replies of a run\<close>

text \<open>
  The values of \<open>batch\<close> in the loop, from start index \<open>i\<close> on: for each
  \<open>i, i + n, i + 2n, ...\<close> below the number of rows, the slice \<open>df.iloc[i:i+n]\<close>.
\<close>

function slices :: "nat \<Rightarrow> 'a list \<Rightarrow> nat \<Rightarrow> 'a list list" where
  "slices n df i =
     (if 0 < n \<and> i < length df then take n (drop i df) # slices n df (i + n) else [])"
  by pat_completeness auto
termination
  by (relation "measure (\<lambda>(n, df, i). length df - i)") auto

text \<open>
  For a sequence of calls made to the sink one after the other from state \<open>s\<close>: the
  calls that returned, the number of calls that raised, and the state the sink ends in.
\<close>

fun accepted :: "'s upsert_api \<Rightarrow> pydict list list \<Rightarrow> 's \<Rightarrow> pydict list list" where
  "accepted api [] s = []"
| "accepted api (p # ps) s =
     (case api p on_conflict s of Done s' \<Rightarrow> p # accepted api ps s' | Raised s' \<Rightarrow> accepted api ps s')"

fun raised :: "'s upsert_api \<Rightarrow> pydict list list \<Rightarrow> 's \<Rightarrow> nat" where
  "raised api [] s = 0"
| "raised api (p # ps) s =
     (case api p on_conflict s of Done s' \<Rightarrow> raised api ps s' | Raised s' \<Rightarrow> Suc (raised api ps s'))"

fun sink_after :: "'s upsert_api \<Rightarrow> pydict list list \<Rightarrow> 's \<Rightarrow> 's" where
  "sink_after api [] s = s"
| "sink_after api (p # ps) s =
     (case api p on_conflict s of Done s' \<Rightarrow> sink_after api ps s' | Raised s' \<Rightarrow> sink_after api ps s')"

text \<open>
  The progress lines among the lines printed, and the running totals of a list of
  numbers from a start value.
\<close>

definition is_progress :: "event \<Rightarrow> bool" where
  "is_progress e = (case e of Progress k t \<Rightarrow> True | _ \<Rightarrow> False)"

fun running :: "nat \<Rightarrow> nat list \<Rightarrow> nat list" where
  "running a [] = []"
| "running a (x # xs) = (a + x) # running (a + x) xs"

text \<open>The rows of a frame whose every cell is missing.\<close>

definition all_absent :: "row \<Rightarrow> bool" where
  "all_absent r = (\<forall>(k, v) \<in> set r. v = PyNone \<or> v = NaN)"

definition count_empty :: "frame \<Rightarrow> nat" where
  "count_empty df = length (filter all_absent df)"

subsection \<open>The sink's table\<close>

type_synonym sink_row = "string \<rightharpoonup> cell"
type_synonym sink_table = "sink_row list"

text \<open>
  Modelled from the spec: the sink's conflict-aware write, which belongs to the Supabase
  service and not to the repository. Section 4.4: "insert each record, or update the
  existing row sharing the same natural-key value", so a record whose key value is in the
  table overwrites the fields it carries in the rows that have that value, and any other
  record becomes a new row at the end.
\<close>

definition upsert_row :: "string \<Rightarrow> sink_row \<Rightarrow> sink_table \<Rightarrow> sink_table" where
  "upsert_row key r t =
     (if \<exists>old \<in> set t. old key = r key
      then map (\<lambda>old. if old key = r key then old ++ r else old) t
      else t @ [r])"

text \<open>
  Modelled from the spec: one call of the sink. Section 3 makes the natural key
  non-null, and section 4.4 says "either the whole batch is accepted by the sink's
  insert-or-update call, or the batch is rejected as a unit" and "a failed batch call has
  no effect on the sink": a batch with a record that lacks the key is rejected and the
  table stays as it was, any other batch is applied record by record.
\<close>

definition sink_upsert :: "sink_table upsert_api" where
  "sink_upsert records key t =
     (if \<forall>rcd \<in> set records. map_of rcd key \<noteq> None
      then Done (foldl (\<lambda>t rcd. upsert_row key (map_of rcd) t) t records)
      else Raised t)"

subsection \<open>Example inputs\<close>

text \<open>
  Five batches of one row each against a sink that counts its calls and raises on the
  third: all five are sent, four records are imported, one error is counted.
\<close>

definition third_fails :: "nat upsert_api" where
  "third_fails records key c = (if c = 2 then Raised (Suc c) else Done (Suc c))"

definition five_rows :: frame where
  "five_rows = map (\<lambda>i. [(''organisationsidentitet'', Num i)]) [1, 2, 3, 4, 5]"

text \<open>A sink that accepts every call and keeps no state.\<close>

definition always_done :: "unit upsert_api" where
  "always_done records key u = Done u"

definition id_row :: "int \<Rightarrow> row" where
  "id_row i = [(''organisationsidentitet'', Num i), (''organisationsnamn'', Str ''Acme AB$1'')]"

definition absent_row :: row where
  "absent_row = [(''organisationsidentitet'', NaN), (''organisationsnamn'', PyNone)]"

definition stray_row :: row where
  "stray_row = [(''organisationsidentitet'', Str ''1''), (''verksamhetsbeskrivning'', Str ''''),
                (''postadress'', Str na_rep), (''registreringsland'', NaN)]"

text \<open>What lines 42 and 46 make of one row.\<close>

definition normalise_row :: "row \<Rightarrow> row" where
  "normalise_row r =
     map (\<lambda>(k, v). if k = ''organisationsnamn'' then (k, str_split_first v) else (k, v))
       (map (\<lambda>(k, v). (k, replace_nan v)) r)"

text \<open>
  A server whose \<open>COPY\<close> takes the first line streamed into the open transaction and
  then raises, and a server that appends every line and returns.
\<close>

definition failing_world :: "string list world" where
  "failing_world =
     \<lparr>connect_ok = True,
      csv_file = Some [''organisationsidentitet,organisationsnamn'', ''1,A'', ''1,B''],
      copy_expert = (\<lambda>ls t. (t @ take 1 ls, Some DatabaseError)),
      commit_ok = True,
      select_count = (\<lambda>t. Some (length t))\<rparr>"

definition headerless_world :: "string list world" where
  "headerless_world =
     \<lparr>connect_ok = True,
      csv_file = Some [''1,A'', ''2,B''],
      copy_expert = (\<lambda>ls t. (t @ ls, None)),
      commit_ok = True,
      select_count = (\<lambda>t. Some (length t))\<rparr>"

text \<open>
  The table after a run of the upsert path against the sink above, the calls the run
  makes, and the records of the calls that the sink accepts, as rows, in the order in
  which they are applied.
\<close>

definition final_table :: "frame \<Rightarrow> sink_table \<Rightarrow> sink_table" where
  "final_table df0 t = (case main sink_upsert df0 t of Inl e \<Rightarrow> t | Inr fin \<Rightarrow> sink fin)"

definition sent :: "frame \<Rightarrow> pydict list list" where
  "sent df0 =
     (case clean_organisationsnamn (df_replace df0) of
        Inl e \<Rightarrow> []
      | Inr D \<Rightarrow> map batch_records (slices BATCH_SIZE D 0))"

definition applied :: "string \<Rightarrow> pydict list list \<Rightarrow> sink_row list" where
  "applied key ps =
     concat (map (\<lambda>p. if \<forall>rcd \<in> set p. map_of rcd key \<noteq> None then map map_of p else []) ps)"

definition apply_records :: "string \<Rightarrow> sink_row list \<Rightarrow> sink_table \<Rightarrow> sink_table" where
  "apply_records key R t = foldl (\<lambda>t r. upsert_row key r t) t R"

text \<open>The fields that the records with key value \<open>ko\<close> write, later records on top.\<close>

definition merged :: "string \<Rightarrow> sink_row list \<Rightarrow> cell option \<Rightarrow> sink_row" where
  "merged key R ko = foldl (++) Map.empty (filter (\<lambda>r. r key = ko) R)"

definition dup_rows :: frame where
  "dup_rows = [[(''organisationsidentitet'', Str ''1''), (''organisationsnamn'', Str ''A'')],
               [(''organisationsidentitet'', Str ''2''), (''organisationsnamn'', Str ''C'')],
               [(''organisationsidentitet'', Str ''1''), (''organisationsnamn'', Str ''B'')]]"

definition mixed_row :: row where
  "mixed_row = [(''organisationsidentitet'', Str ''5''), (''organisationsnamn'', PyNone),
                (''postadress'', NaN), (''registreringsland'', Str ''SE'')]"

declare slices.simps [simp del]
declare upsert_loop.simps [simp del]
declare show_nat.simps [simp del]

section \<open>Records, slices and the batch loop\<close>

lemma update_fresh: "k \<notin> fst ` set al \<Longrightarrow> AList.update k v al = al @ [(k, v)]"
  by (induction al) auto

lemma to_dict_aux_distinct:
  "distinct (map fst d) \<Longrightarrow> distinct (map fst (foldl (\<lambda>d (k, v). AList.update k v d) d r))"
  by (induction r arbitrary: d) (auto simp: distinct_update)

lemma to_dict_distinct: "distinct (map fst (to_dict r))"
  by (simp add: to_dict_def to_dict_aux_distinct)

lemma to_dict_aux_fresh:
  "distinct (map fst r) \<Longrightarrow> fst ` set d \<inter> fst ` set r = {} \<Longrightarrow>
   foldl (\<lambda>d (k, v). AList.update k v d) d r = d @ r"
proof (induction r arbitrary: d)
  case Nil
  show ?case by simp
next
  case (Cons p r)
  obtain k v where p: "p = (k, v)" by (cases p)
  from Cons.prems have fresh: "k \<notin> fst ` set d" by (auto simp: p)
  have "foldl (\<lambda>d (k, v). AList.update k v d) (d @ [(k, v)]) r = (d @ [(k, v)]) @ r"
    using Cons.prems by (intro Cons.IH) (auto simp: p)
  then show ?case by (simp add: p update_fresh [OF fresh])
qed

lemma to_dict_id: "distinct (map fst r) \<Longrightarrow> to_dict r = r"
  using to_dict_aux_fresh [of r "[]"] by (simp add: to_dict_def)

lemma add_fields_filter:
  "distinct (map fst items) \<Longrightarrow> fst ` set rcd \<inter> fst ` set items = {} \<Longrightarrow>
   add_fields items rcd = rcd @ filter (\<lambda>(k, v). v \<noteq> PyNone \<and> v \<noteq> NaN) items"
proof (induction items arbitrary: rcd)
  case Nil
  show ?case by simp
next
  case (Cons p items)
  obtain k v where p: "p = (k, v)" by (cases p)
  from Cons.prems have fresh: "k \<notin> fst ` set rcd" by (auto simp: p)
  show ?case
  proof (cases "v \<noteq> PyNone \<and> v \<noteq> NaN")
    case True
    have "add_fields items (rcd @ [(k, v)]) =
          (rcd @ [(k, v)]) @ filter (\<lambda>(k, v). v \<noteq> PyNone \<and> v \<noteq> NaN) items"
      using Cons.prems by (intro Cons.IH) (auto simp: p)
    with True show ?thesis by (simp add: p py_eq_self_def update_fresh [OF fresh])
  next
    case False
    have "add_fields items rcd = rcd @ filter (\<lambda>(k, v). v \<noteq> PyNone \<and> v \<noteq> NaN) items"
      using Cons.prems by (intro Cons.IH) (auto simp: p)
    with False show ?thesis by (auto simp: p py_eq_self_def)
  qed
qed

lemma row_record_filter:
  "row_record r = filter (\<lambda>(k, v). v \<noteq> PyNone \<and> v \<noteq> NaN) (to_dict r)"
  using add_fields_filter [of "to_dict r" "[]"] by (simp add: row_record_def to_dict_distinct)

lemma batch_records_filter: "batch_records b = filter (\<lambda>rcd. rcd \<noteq> []) (map row_record b)"
  by (induction b) (auto simp: Let_def)

lemma slices_concat: "0 < n \<Longrightarrow> concat (slices n df i) = drop i df"
proof (induction n df i rule: slices.induct)
  case (1 n df i)
  show ?case
  proof (cases "i < length df")
    case True
    with 1 have "concat (slices n df (i + n)) = drop (i + n) df" by simp
    moreover have "take n (drop i df) @ drop (i + n) df = drop i df"
      by (metis add.commute append_take_drop_id drop_drop)
    ultimately show ?thesis using True "1.prems" by (subst slices.simps) simp
  next
    case False
    then show ?thesis by (subst slices.simps) simp
  qed
qed

lemma slices_sizes:
  "b \<in> set (slices n df i) \<Longrightarrow> 0 < length b \<and> length b \<le> n"
proof (induction n df i rule: slices.induct)
  case (1 n df i)
  from "1.prems" have c: "0 < n \<and> i < length df"
    by (subst (asm) slices.simps) (auto split: if_splits)
  from "1.prems" c have "b = take n (drop i df) \<or> b \<in> set (slices n df (i + n))"
    by (subst (asm) slices.simps) auto
  then show ?case
  proof
    assume "b = take n (drop i df)"
    with c show ?thesis by simp
  next
    assume "b \<in> set (slices n df (i + n))"
    with 1 c show ?thesis by simp
  qed
qed

lemma slices_full:
  "b \<in> set (butlast (slices n df i)) \<Longrightarrow> length b = n"
proof (induction n df i rule: slices.induct)
  case (1 n df i)
  from "1.prems" have c: "0 < n \<and> i < length df"
    by (subst (asm) slices.simps) (auto split: if_splits)
  have eq: "slices n df i = take n (drop i df) # slices n df (i + n)"
    using c by (subst slices.simps) simp
  show ?case
  proof (cases "slices n df (i + n) = []")
    case True
    with "1.prems" eq show ?thesis by simp
  next
    case False
    then have "i + n < length df" by (subst (asm) slices.simps) (auto split: if_splits)
    then have len: "length (take n (drop i df)) = n" by simp
    from "1.prems" eq False
    have "b = take n (drop i df) \<or> b \<in> set (butlast (slices n df (i + n)))" by auto
    then show ?thesis using len "1.IH" c by auto
  qed
qed

lemma slices_length: "0 < n \<Longrightarrow> length (slices n df i) = (length df - i + (n - 1)) div n"
proof (induction n df i rule: slices.induct)
  case (1 n df i)
  show ?case
  proof (cases "i < length df")
    case True
    with 1 have ih: "length (slices n df (i + n)) = (length df - (i + n) + (n - 1)) div n"
      by simp
    have eq: "slices n df i = take n (drop i df) # slices n df (i + n)"
      using True "1.prems" by (subst slices.simps) simp
    show ?thesis
    proof (cases "i + n < length df")
      case True
      define x where "x = length df - (i + n) + (n - 1)"
      have A: "length df - i + (n - 1) = x + n" using True by (simp add: x_def)
      have B: "(x + n) div n = x div n + 1" using "1.prems" div_add_self2 [of n x] by simp
      have "length (slices n df i) = x div n + 1" using eq ih by (simp add: x_def)
      then show ?thesis unfolding A B .
    next
      case False
      with "1.prems" have a: "(length df - (i + n) + (n - 1)) div n = 0" by simp
      from False True "1.prems"
      have "n * 1 \<le> length df - i + (n - 1)" "length df - i + (n - 1) < n * Suc 1"
        by simp_all
      then have C: "(length df - i + (n - 1)) div n = 1" by (rule div_nat_eqI)
      have "length (slices n df i) = 1" using eq ih a by simp
      then show ?thesis unfolding C .
    qed
  next
    case False
    then show ?thesis using "1.prems" by (subst slices.simps) simp
  qed
qed

lemma slices_1201: "length df = 1201 \<Longrightarrow> map length (slices 500 df 0) = [500, 500, 201]"
  by (simp add: slices.simps)

lemma upsert_batch_calls:
  "calls (upsert_batch api n df i st) = calls st @ [batch_records (take n (drop i df))]"
  by (simp add: upsert_batch_def Let_def split: reply.split)

lemma upsert_batch_Done:
  "api (batch_records (take n (drop i df))) on_conflict (sink st) = Done s' \<Longrightarrow>
   imported (upsert_batch api n df i st) = imported st + length (batch_records (take n (drop i df)))
   \<and> errors (upsert_batch api n df i st) = errors st
   \<and> sink (upsert_batch api n df i st) = s'"
  by (simp add: upsert_batch_def Let_def)

lemma upsert_batch_Raised:
  "api (batch_records (take n (drop i df))) on_conflict (sink st) = Raised s' \<Longrightarrow>
   imported (upsert_batch api n df i st) = imported st
   \<and> errors (upsert_batch api n df i st) = errors st + 1
   \<and> sink (upsert_batch api n df i st) = s'"
  by (simp add: upsert_batch_def Let_def)

lemma loop_calls:
  "calls (upsert_loop api n df i st) = calls st @ map batch_records (slices n df i)"
proof (induction api n df i st rule: upsert_loop.induct)
  case (1 api n df i st)
  show ?case
  proof (cases "0 < n \<and> i < length df")
    case True
    then have "upsert_loop api n df i st = upsert_loop api n df (i + n) (upsert_batch api n df i st)"
      by (subst upsert_loop.simps) simp
    moreover have "slices n df i = take n (drop i df) # slices n df (i + n)"
      using True by (subst slices.simps) simp
    ultimately show ?thesis using 1 True by (simp add: upsert_batch_calls)
  next
    case False
    then have "upsert_loop api n df i st = st"
      by (subst upsert_loop.simps) auto
    moreover from False have "slices n df i = []"
      by (subst slices.simps) auto
    ultimately show ?thesis by simp
  qed
qed

lemma loop_counts:
  "errors (upsert_loop api n df i st)
     = errors st + raised api (map batch_records (slices n df i)) (sink st)
   \<and> imported (upsert_loop api n df i st)
     = imported st + length (concat (accepted api (map batch_records (slices n df i)) (sink st)))
   \<and> sink (upsert_loop api n df i st)
     = sink_after api (map batch_records (slices n df i)) (sink st)"
proof (induction api n df i st rule: upsert_loop.induct)
  case (1 api n df i st)
  show ?case
  proof (cases "0 < n \<and> i < length df")
    case True
    then have L: "upsert_loop api n df i st = upsert_loop api n df (i + n) (upsert_batch api n df i st)"
      by (subst upsert_loop.simps) simp
    have S: "slices n df i = take n (drop i df) # slices n df (i + n)"
      using True by (subst slices.simps) simp
    note IH = "1.IH" [OF True]
    show ?thesis
    proof (cases "api (batch_records (take n (drop i df))) on_conflict (sink st)")
      case (Done s')
      from upsert_batch_Done [of api n i df st s'] Done IH show ?thesis
        unfolding L S by (simp add: Done)
    next
      case (Raised s')
      from upsert_batch_Raised [of api n i df st s'] Raised IH show ?thesis
        unfolding L S by (simp add: Raised)
    qed
  next
    case False
    then have "upsert_loop api n df i st = st"
      by (subst upsert_loop.simps) auto
    moreover from False have "slices n df i = []"
      by (subst slices.simps) auto
    ultimately show ?thesis by simp
  qed
qed


lemma accepted_raised_length: "length (accepted api ps s) + raised api ps s = length ps"
  by (induction ps arbitrary: s) (auto split: reply.split)

lemma accepted_sublist: "length (concat (accepted api ps s)) \<le> length (concat ps)"
  by (induction ps arbitrary: s) (auto split: reply.split simp: trans_le_add2)

section \<open>Normalisation and the run of main\<close>

lemma clean_Inr:
  "clean_organisationsnamn df = Inr D \<Longrightarrow>
   D = map (map (\<lambda>(k, v). if k = ''organisationsnamn'' then (k, str_split_first v) else (k, v))) df
   \<and> \<not> label_twice df \<and> str_accessor_ok (name_cells df)"
  by (auto simp: clean_organisationsnamn_def split: if_splits)

lemma normalise_frame:
  "clean_organisationsnamn (df_replace df0) = Inr D \<Longrightarrow> D = map normalise_row df0"
  by (auto dest!: clean_Inr simp: df_replace_def normalise_row_def)

lemma str_accessor_strings:
  "\<forall>v \<in> set cells. missing v \<or> (\<exists>s. v = Str s) \<Longrightarrow> str_accessor_ok cells"
proof -
  assume a: "\<forall>v \<in> set cells. missing v \<or> (\<exists>s. v = Str s)"
  define vs where "vs = filter (\<lambda>v. \<not> missing v) cells"
  have s: "\<forall>v \<in> set vs. \<exists>s. v = Str s" using a by (auto simp: vs_def)
  have "vs = [] \<or> \<not> (list_all is_Num vs \<or> list_all is_Bool vs)"
  proof (cases vs)
    case Nil
    then show ?thesis by simp
  next
    case (Cons v ws)
    with s obtain t where "v = Str t" by auto
    with Cons show ?thesis by (simp add: is_Num_def is_Bool_def)
  qed
  then show ?thesis by (simp add: str_accessor_ok_def vs_def Let_def)
qed

lemma clean_strings:
  "\<not> label_twice df \<Longrightarrow> \<forall>v \<in> set (name_cells df). missing v \<or> (\<exists>s. v = Str s) \<Longrightarrow>
   clean_organisationsnamn df =
     Inr (map (map (\<lambda>(k, v). if k = ''organisationsnamn'' then (k, str_split_first v)
                            else (k, v))) df)"
  by (simp add: clean_organisationsnamn_def str_accessor_strings)

lemma import_batches_run:
  "0 < n \<Longrightarrow> clean_organisationsnamn (df_replace df0) = Inr D \<Longrightarrow>
   import_batches api n df0 s =
     Inr (upsert_loop api n D 0 \<lparr>imported = 0, errors = 0, calls = [], printed = [], sink = s\<rparr>)"
  by (simp add: import_batches_def)

lemma import_batches_raise:
  "clean_organisationsnamn (df_replace df0) = Inl e \<Longrightarrow> import_batches api n df0 s = Inl e"
  by (simp add: import_batches_def)

lemma main_run:
  "clean_organisationsnamn (df_replace df0) = Inr D \<Longrightarrow>
   main api df0 s =
     Inr (upsert_loop api BATCH_SIZE D 0
            \<lparr>imported = 0, errors = 0, calls = [], printed = [], sink = s\<rparr>)"
  by (simp add: main_def import_batches_def BATCH_SIZE_def)

lemma slices_subset: "b \<in> set (slices n df i) \<Longrightarrow> set b \<subseteq> set df"
proof -
  assume b: "b \<in> set (slices n df i)"
  then have "0 < n" by (subst (asm) slices.simps) (auto split: if_splits)
  then have "concat (slices n df i) = drop i df" by (rule slices_concat)
  moreover from b have "set b \<subseteq> set (concat (slices n df i))" by auto
  ultimately show ?thesis using set_drop_subset [of i df] by auto
qed

lemma batch_records_all:
  "\<forall>r \<in> set b. row_record r \<noteq> [] \<Longrightarrow> batch_records b = map row_record b"
  by (induction b) (auto simp: Let_def)

lemma batch_records_length: "length (batch_records b) \<le> length b"
  by (induction b) (auto simp: Let_def)

lemma batch_records_Nil: "batch_records b = [] \<longleftrightarrow> (\<forall>r \<in> set b. row_record r = [])"
  by (induction b) (auto simp: Let_def)

lemma records_of_slices:
  assumes "0 < n" and "\<forall>r \<in> set df. row_record r \<noteq> []"
  shows "map batch_records (slices n df 0) = map (map row_record) (slices n df 0)"
proof (rule map_cong [OF refl])
  fix b assume "b \<in> set (slices n df 0)"
  then have "set b \<subseteq> set df" by (rule slices_subset)
  with assms(2) have "\<forall>r \<in> set b. row_record r \<noteq> []" by auto
  then show "batch_records b = map row_record b" by (rule batch_records_all)
qed

lemma update_set_subset: "set (AList.update k v al) \<subseteq> insert (k, v) (set al)"
  by (induction al) auto

lemma to_dict_aux_set:
  "set (foldl (\<lambda>d (k, v). AList.update k v d) d r) \<subseteq> set d \<union> set r"
proof (induction r arbitrary: d)
  case Nil
  show ?case by simp
next
  case (Cons p r)
  obtain k v where p: "p = (k, v)" by (cases p)
  have "set (foldl (\<lambda>d (k, v). AList.update k v d) (AList.update k v d) r)
          \<subseteq> set (AList.update k v d) \<union> set r"
    by (rule Cons.IH)
  with update_set_subset [of k v d] show ?case by (auto simp: p)
qed

lemma to_dict_set: "set (to_dict r) \<subseteq> set r"
  using to_dict_aux_set [of "[]" r] by (simp add: to_dict_def)

lemma all_absent_record: "all_absent r \<Longrightarrow> row_record r = []"
proof -
  assume a: "all_absent r"
  have "\<not> (case p of (k, v) \<Rightarrow> v \<noteq> PyNone \<and> v \<noteq> NaN)" if "p \<in> set (to_dict r)" for p
    using that to_dict_set [of r] a by (auto simp: all_absent_def)
  then show ?thesis by (simp add: row_record_filter filter_empty_conv)
qed

lemma all_absent_normalise: "all_absent r \<Longrightarrow> all_absent (normalise_row r)"
  by (fastforce simp: all_absent_def normalise_row_def replace_nan_def str_split_first_def
      split: if_splits)

lemma batch_records_append: "batch_records (a @ b) = batch_records a @ batch_records b"
  by (simp add: batch_records_filter)

lemma concat_batch_records: "concat (map batch_records bs) = batch_records (concat bs)"
  by (induction bs) (simp_all add: batch_records_append)

lemma normalise_row_keys: "map fst (normalise_row r) = map fst r"
  by (induction r) (auto simp: normalise_row_def)

lemma normalise_row_absent:
  "(k, v) \<in> set r \<Longrightarrow> v = PyNone \<or> v = NaN \<Longrightarrow>
   \<exists>v'. (k, v') \<in> set (normalise_row r) \<and> (v' = PyNone \<or> v' = NaN)"
  by (force simp: normalise_row_def replace_nan_def str_split_first_def)

lemma upsert_batch_imported_mono: "imported st \<le> imported (upsert_batch api n df i st)"
  by (simp add: upsert_batch_def Let_def split: reply.split)

lemma records_of_frame:
  "batch_records (map normalise_row df0)
     = filter (\<lambda>rcd. rcd \<noteq> []) (map (\<lambda>r. row_record (normalise_row r)) df0)"
  by (simp add: batch_records_filter comp_def)

lemma count_empty_bound:
  "length (batch_records (map normalise_row df)) + count_empty df \<le> length df"
proof -
  let ?E = "\<lambda>r. row_record (normalise_row r) = []"
  have "length (filter all_absent df) \<le> length (filter ?E df)"
  proof (induction df)
    case Nil
    show ?case by simp
  next
    case (Cons r df)
    then show ?case using all_absent_record [OF all_absent_normalise, of r] by auto
  qed
  moreover have "length (batch_records (map normalise_row df)) = length (filter (\<lambda>r. \<not> ?E r) df)"
    by (induction df) (simp_all add: Let_def)
  moreover have "length (filter ?E df) + length (filter (\<lambda>r. \<not> ?E r) df) = length df"
    by (rule sum_length_filter_compl)
  ultimately show ?thesis by (simp add: count_empty_def)
qed

lemma upsert_batch_printed_Done:
  "api (batch_records (take n (drop i df))) on_conflict (sink st) = Done s' \<Longrightarrow>
   filter is_progress (printed (upsert_batch api n df i st))
     = filter is_progress (printed st)
       @ [Progress (imported st + length (batch_records (take n (drop i df)))) (length df)]"
  by (simp add: upsert_batch_def Let_def is_progress_def)

lemma upsert_batch_printed_Raised:
  "api (batch_records (take n (drop i df))) on_conflict (sink st) = Raised s' \<Longrightarrow>
   filter is_progress (printed (upsert_batch api n df i st)) = filter is_progress (printed st)"
  by (simp add: upsert_batch_def Let_def is_progress_def)

lemma loop_progress_lines:
  "filter is_progress (printed (upsert_loop api n df i st))
     = filter is_progress (printed st)
       @ map (\<lambda>k. Progress k (length df))
           (running (imported st)
              (map length (accepted api (map batch_records (slices n df i)) (sink st))))"
proof (induction api n df i st rule: upsert_loop.induct)
  case (1 api n df i st)
  show ?case
  proof (cases "0 < n \<and> i < length df")
    case True
    then have L: "upsert_loop api n df i st = upsert_loop api n df (i + n) (upsert_batch api n df i st)"
      by (subst upsert_loop.simps) simp
    have S: "slices n df i = take n (drop i df) # slices n df (i + n)"
      using True by (subst slices.simps) simp
    note IH = "1.IH" [OF True]
    show ?thesis
    proof (cases "api (batch_records (take n (drop i df))) on_conflict (sink st)")
      case (Done s')
      from upsert_batch_Done [of api n i df st s'] upsert_batch_printed_Done [of api n i df st s']
        Done IH
      show ?thesis unfolding L S by (simp add: Done)
    next
      case (Raised s')
      from upsert_batch_Raised [of api n i df st s'] upsert_batch_printed_Raised [of api n i df st s']
        Raised IH
      show ?thesis unfolding L S by (simp add: Raised)
    qed
  next
    case False
    then have "upsert_loop api n df i st = st"
      by (subst upsert_loop.simps) auto
    moreover from False have "slices n df i = []"
      by (subst slices.simps) auto
    ultimately show ?thesis by simp
  qed
qed

text \<open>
  What a run that gets past the normalisation leaves behind, for every sink: the calls
  are the records of the slices, which taken together are the non-empty records of the
  rows in order; the counters, the sink and the progress lines follow the replies.
\<close>

lemma run_facts:
  assumes "0 < n" and "clean_organisationsnamn (df_replace df0) = Inr D"
  shows "\<exists>fin. import_batches api n df0 s = Inr fin
     \<and> calls fin = map batch_records (slices n D 0)
     \<and> concat (calls fin)
         = filter (\<lambda>rcd. rcd \<noteq> []) (map (\<lambda>r. row_record (normalise_row r)) df0)
     \<and> errors fin = raised api (calls fin) s
     \<and> imported fin = length (concat (accepted api (calls fin) s))
     \<and> sink fin = sink_after api (calls fin) s
     \<and> filter is_progress (printed fin)
         = map (\<lambda>k. Progress k (length df0))
             (running 0 (map length (accepted api (calls fin) s)))"
proof -
  define st0 :: "'a run"
    where "st0 = \<lparr>imported = 0, errors = 0, calls = [], printed = [], sink = s\<rparr>"
  define fin where "fin = upsert_loop api n D 0 st0"
  have D: "D = map normalise_row df0" using assms(2) by (rule normalise_frame)
  have m: "import_batches api n df0 s = Inr fin"
    using import_batches_run [OF assms] by (simp add: fin_def st0_def)
  have c: "calls fin = map batch_records (slices n D 0)"
    by (simp add: fin_def loop_calls st0_def)
  have r: "concat (calls fin)
         = filter (\<lambda>rcd. rcd \<noteq> []) (map (\<lambda>r. row_record (normalise_row r)) df0)"
    by (simp add: c concat_batch_records slices_concat [OF assms(1)] D records_of_frame)
  have k: "errors fin = raised api (calls fin) s
      \<and> imported fin = length (concat (accepted api (calls fin) s))
      \<and> sink fin = sink_after api (calls fin) s"
    using loop_counts [of api n D 0 st0] by (simp add: fin_def st0_def loop_calls)
  have p: "filter is_progress (printed fin)
         = map (\<lambda>k. Progress k (length df0)) (running 0 (map length (accepted api (calls fin) s)))"
    using loop_progress_lines [of api n D 0 st0] by (simp add: fin_def st0_def loop_calls D)
  from m c r k p show ?thesis by blast
qed

lemma main_facts:
  assumes "clean_organisationsnamn (df_replace df0) = Inr D"
  shows "\<exists>fin. main api df0 s = Inr fin
     \<and> calls fin = map batch_records (slices BATCH_SIZE D 0)
     \<and> concat (calls fin)
         = filter (\<lambda>rcd. rcd \<noteq> []) (map (\<lambda>r. row_record (normalise_row r)) df0)
     \<and> errors fin = raised api (calls fin) s
     \<and> imported fin = length (concat (accepted api (calls fin) s))
     \<and> sink fin = sink_after api (calls fin) s
     \<and> filter is_progress (printed fin)
         = map (\<lambda>k. Progress k (length df0))
             (running 0 (map length (accepted api (calls fin) s)))"
proof -
  have "0 < BATCH_SIZE" by (simp add: BATCH_SIZE_def)
  from run_facts [OF this assms, of api s] show ?thesis by (simp add: main_def)
qed

lemma row_record_sent:
  assumes "concat cs = filter (\<lambda>rcd. rcd \<noteq> []) (map (\<lambda>r. row_record (normalise_row r)) df0)"
    and "r \<in> set df0" and "row_record (normalise_row r) \<noteq> []"
  shows "\<exists>b \<in> set cs. row_record (normalise_row r) \<in> set b"
proof -
  from assms(2,3) have "row_record (normalise_row r)
      \<in> set (filter (\<lambda>rcd. rcd \<noteq> []) (map (\<lambda>r. row_record (normalise_row r)) df0))"
    by auto
  with assms(1) have "row_record (normalise_row r) \<in> set (concat cs)" by simp
  then show ?thesis by auto
qed

section \<open>Name normalisation\<close>

lemma py_split_not_Nil: "py_split sep s \<noteq> []"
  by (induction s) (auto split: list.splits)

lemma py_split_no_sep: "sep \<notin> set s \<Longrightarrow> py_split sep s = [s]"
  by (induction s) auto

lemma py_split_first_sep:
  "sep \<notin> set p \<Longrightarrow> \<exists>ps. py_split sep (p @ sep # rest) = p # ps"
proof (induction p)
  case Nil
  show ?case by simp
next
  case (Cons c p)
  then obtain ps where "py_split sep (p @ sep # rest) = p # ps" by auto
  with Cons.prems show ?case by auto
qed

lemma str_split_first_cut:
  "raw = p @ CHR ''$'' # rest \<and> CHR ''$'' \<notin> set p \<or> CHR ''$'' \<notin> set raw \<and> p = raw \<Longrightarrow>
   str_split_first (Str raw) = Str p"
proof (elim disjE conjE)
  assume "raw = p @ CHR ''$'' # rest" and "CHR ''$'' \<notin> set p"
  moreover from this obtain ps where "py_split (CHR ''$'') (p @ CHR ''$'' # rest) = p # ps"
    using py_split_first_sep by blast
  ultimately show ?thesis by (simp add: str_split_first_def)
next
  assume "CHR ''$'' \<notin> set raw" and "p = raw"
  then show ?thesis by (simp add: str_split_first_def py_split_no_sep)
qed

lemma normalise_row_name:
  "(''organisationsnamn'', Str raw) \<in> set r \<Longrightarrow>
   (''organisationsnamn'', str_split_first (Str raw)) \<in> set (normalise_row r)"
  by (force simp: normalise_row_def replace_nan_def)

lemma normalise_row_other:
  "(k, Str t) \<in> set r \<Longrightarrow> k \<noteq> ''organisationsnamn'' \<Longrightarrow> (k, Str t) \<in> set (normalise_row r)"
  by (force simp: normalise_row_def replace_nan_def)

lemma row_record_normalised:
  "distinct (map fst r) \<Longrightarrow>
   row_record (normalise_row r) = filter (\<lambda>(k, v). v \<noteq> PyNone \<and> v \<noteq> NaN) (normalise_row r)"
  by (simp add: row_record_filter to_dict_id normalise_row_keys)

lemmas run_defs =
  main_def import_batches_def BATCH_SIZE_def upsert_loop.simps upsert_batch_def
  clean_organisationsnamn_def label_twice_def name_cells_def str_accessor_ok_def missing_def
  is_Num_def is_Bool_def df_replace_def replace_nan_def str_split_first_def
  row_record_def to_dict_def py_eq_self_def on_conflict_def Let_def

text \<open>
  C7. For every frame on which the normalisation returns and every row of it whose
  name cell is a string: if the raw name contains the delimiter \<open>$\<close>, the name in the
  normalised frame and in the record sent to the sink for that row is the text before the
  first \<open>$\<close>; if it contains none, the name is unchanged. The raw name \<open>Acme AB$1\<close>
  becomes \<open>Acme AB\<close>.
\<close>

theorem name_normalisation:
  "(clean_organisationsnamn (df_replace df0) = Inr D \<and> r \<in> set df0 \<and> distinct (map fst r)
      \<and> (''organisationsnamn'', Str raw) \<in> set r
      \<and> (raw = p @ CHR ''$'' # rest \<and> CHR ''$'' \<notin> set p \<or> CHR ''$'' \<notin> set raw \<and> p = raw) \<longrightarrow>
      normalise_row r \<in> set D
      \<and> (''organisationsnamn'', Str p) \<in> set (normalise_row r)
      \<and> (''organisationsnamn'', Str p) \<in> set (row_record (normalise_row r))
      \<and> (\<exists>fin. main api df0 s = Inr fin
            \<and> (\<exists>b \<in> set (calls fin). row_record (normalise_row r) \<in> set b)))
   \<and> str_split_first (Str ''Acme AB$1'') = Str ''Acme AB''"
proof (intro conjI impI)
  assume a: "clean_organisationsnamn (df_replace df0) = Inr D \<and> r \<in> set df0
      \<and> distinct (map fst r) \<and> (''organisationsnamn'', Str raw) \<in> set r
      \<and> (raw = p @ CHR ''$'' # rest \<and> CHR ''$'' \<notin> set p \<or> CHR ''$'' \<notin> set raw \<and> p = raw)"
  then have cut: "str_split_first (Str raw) = Str p"
    using str_split_first_cut [of raw p rest] by simp
  from a have D: "D = map normalise_row df0" by (intro normalise_frame) simp
  with a show "normalise_row r \<in> set D" by simp
  from a cut show n: "(''organisationsnamn'', Str p) \<in> set (normalise_row r)"
    using normalise_row_name [of raw r] by simp
  from a n show rc: "(''organisationsnamn'', Str p) \<in> set (row_record (normalise_row r))"
    by (simp add: row_record_normalised)
  from a obtain fin where m: "main api df0 s = Inr fin"
    and c: "concat (calls fin)
         = filter (\<lambda>rcd. rcd \<noteq> []) (map (\<lambda>r. row_record (normalise_row r)) df0)"
    using main_facts [of df0 D api s] by blast
  from rc have "row_record (normalise_row r) \<noteq> []" by auto
  with c a have "\<exists>b \<in> set (calls fin). row_record (normalise_row r) \<in> set b"
    by (intro row_record_sent [of "calls fin" df0]) simp_all
  with m show "\<exists>fin. main api df0 s = Inr fin
            \<and> (\<exists>b \<in> set (calls fin). row_record (normalise_row r) \<in> set b)"
    by blast
next
  show "str_split_first (Str ''Acme AB$1'') = Str ''Acme AB''"
    by (simp add: str_split_first_def)
qed

lemma acme_run:
  "clean_organisationsnamn (df_replace [id_row 7])
     = Inr [[(''organisationsidentitet'', Num 7), (''organisationsnamn'', Str ''Acme AB'')]]
   \<and> main always_done [id_row 7] ()
     = Inr \<lparr>imported = 1, errors = 0,
            calls = [[[(''organisationsidentitet'', Num 7), (''organisationsnamn'', Str ''Acme AB'')]]],
            printed = [Importing 1 1 1, Progress 1 1], sink = ()\<rparr>"
  by (simp add: run_defs id_row_def always_done_def)

theorem name_normalisation_witness:
  "clean_organisationsnamn (df_replace [id_row 7])
     = Inr [[(''organisationsidentitet'', Num 7), (''organisationsnamn'', Str ''Acme AB'')]]
   \<and> id_row 7 \<in> set [id_row 7] \<and> distinct (map fst (id_row 7))
   \<and> (''organisationsnamn'', Str ''Acme AB$1'') \<in> set (id_row 7)
   \<and> ''Acme AB$1'' = ''Acme AB'' @ CHR ''$'' # ''1'' \<and> CHR ''$'' \<notin> set ''Acme AB''
   \<and> (''organisationsnamn'', Str ''Acme AB'') \<in> set (row_record (normalise_row (id_row 7)))
   \<and> main always_done [id_row 7] ()
     = Inr \<lparr>imported = 1, errors = 0,
            calls = [[[(''organisationsidentitet'', Num 7), (''organisationsnamn'', Str ''Acme AB'')]]],
            printed = [Importing 1 1 1, Progress 1 1], sink = ()\<rparr>"
  using name_normalisation [of "[id_row 7]"
      "[[(''organisationsidentitet'', Num 7), (''organisationsnamn'', Str ''Acme AB'')]]"
      "id_row 7" "''Acme AB$1''" "''Acme AB''" "''1''" always_done "()"] acme_run
  by (simp add: id_row_def normalise_row_def replace_nan_def str_split_first_def
      row_record_def to_dict_def py_eq_self_def)

section \<open>Batch isolation\<close>

text \<open>
  C6. In a run of the upsert path a batch write that raises adds exactly 1 to the error
  count and nothing to the imported count, and the run goes on: once the normalisation
  has returned, whatever the sink replies, every slice of the frame is sent (one call per
  batch, \<open>total_batches\<close> calls in all), the error count is the number of calls that
  raised, the imported count is the number of records of the calls that returned, and
  the process ends with status 0. The exit status does not depend on the sink at all: it
  is 0 exactly when the batch size is not 0 and the normalisation returns.
\<close>

theorem batch_isolation:
  "(api (batch_records (take n (drop i df))) on_conflict (sink st) = Raised s' \<longrightarrow>
      errors (upsert_batch api n df i st) = errors st + 1
      \<and> imported (upsert_batch api n df i st) = imported st)
   \<and> (0 < n \<and> clean_organisationsnamn (df_replace df0) = Inr D \<longrightarrow>
        (\<exists>fin. import_batches api n df0 s = Inr fin
          \<and> calls fin = map batch_records (slices n D 0)
          \<and> length (calls fin) = (length df0 + n - 1) div n
          \<and> errors fin = raised api (calls fin) s
          \<and> imported fin = length (concat (accepted api (calls fin) s))
          \<and> length (accepted api (calls fin) s) + raised api (calls fin) s = length (calls fin)
          \<and> summary fin = (imported fin, errors fin))
        \<and> exit_code (import_batches api n df0 s) = 0)
   \<and> (exit_code (import_batches api n df0 s) = 0
        \<longleftrightarrow> 0 < n \<and> (\<exists>D. clean_organisationsnamn (df_replace df0) = Inr D))
   \<and> main api df0 s = import_batches api BATCH_SIZE df0 s
   \<and> 0 < BATCH_SIZE"
proof (intro conjI impI)
  assume "api (batch_records (take n (drop i df))) on_conflict (sink st) = Raised s'"
  with upsert_batch_Raised [of api n i df st s']
  show "errors (upsert_batch api n df i st) = errors st + 1"
    and "imported (upsert_batch api n df i st) = imported st" by simp_all
next
  show "main api df0 s = import_batches api BATCH_SIZE df0 s" by (simp add: main_def)
  show "0 < BATCH_SIZE" by (simp add: BATCH_SIZE_def)
  show "exit_code (import_batches api n df0 s) = 0
        \<longleftrightarrow> 0 < n \<and> (\<exists>D. clean_organisationsnamn (df_replace df0) = Inr D)"
    by (cases "clean_organisationsnamn (df_replace df0)")
       (simp_all add: import_batches_def exit_code_def)
next
  assume a: "0 < n \<and> clean_organisationsnamn (df_replace df0) = Inr D"
  then have pos: "0 < n" and cl: "clean_organisationsnamn (df_replace df0) = Inr D" by simp_all
  from run_facts [OF pos cl, of api s] obtain fin
    where m: "import_batches api n df0 s = Inr fin"
      and c: "calls fin = map batch_records (slices n D 0)"
      and e: "errors fin = raised api (calls fin) s"
      and i: "imported fin = length (concat (accepted api (calls fin) s))"
    by blast
  have lenD: "length D = length df0" using normalise_frame [OF cl] by simp
  have "length df0 + n - 1 = length df0 + (n - 1)" using pos by simp
  then have l: "length (calls fin) = (length df0 + n - 1) div n"
    by (simp add: c slices_length [OF pos] lenD)
  show "\<exists>fin. import_batches api n df0 s = Inr fin
          \<and> calls fin = map batch_records (slices n D 0)
          \<and> length (calls fin) = (length df0 + n - 1) div n
          \<and> errors fin = raised api (calls fin) s
          \<and> imported fin = length (concat (accepted api (calls fin) s))
          \<and> length (accepted api (calls fin) s) + raised api (calls fin) s = length (calls fin)
          \<and> summary fin = (imported fin, errors fin)"
  proof (intro exI [of _ fin] conjI)
    show "import_batches api n df0 s = Inr fin" by (rule m)
    show "calls fin = map batch_records (slices n D 0)" by (rule c)
    show "length (calls fin) = (length df0 + n - 1) div n" by (rule l)
    show "errors fin = raised api (calls fin) s" by (rule e)
    show "imported fin = length (concat (accepted api (calls fin) s))" by (rule i)
    show "length (accepted api (calls fin) s) + raised api (calls fin) s = length (calls fin)"
      by (rule accepted_raised_length)
    show "summary fin = (imported fin, errors fin)" by (simp add: summary_def)
  qed
  show "exit_code (import_batches api n df0 s) = 0" by (simp add: m exit_code_def)
qed

lemma five_rows_run:
  "clean_organisationsnamn (df_replace five_rows) = Inr five_rows
   \<and> import_batches third_fails 1 five_rows 0 =
     Inr \<lparr>imported = 4, errors = 1,
          calls = map (\<lambda>i. [[(''organisationsidentitet'', Num i)]]) [1, 2, 3, 4, 5],
          printed = [Importing 1 5 1, Progress 1 5, Importing 2 5 1, Progress 2 5,
                     Importing 3 5 1, ErrorLine, Importing 4 5 1, Progress 3 5,
                     Importing 5 5 1, Progress 4 5],
          sink = 5\<rparr>"
  by (simp add: run_defs five_rows_def third_fails_def)

theorem batch_isolation_witness:
  "third_fails (batch_records (take 1 (drop 2 five_rows))) on_conflict
      (sink \<lparr>imported = 2, errors = 0, calls = [], printed = [], sink = 2\<rparr>) = Raised 3
   \<and> errors (upsert_batch third_fails 1 five_rows 2
        \<lparr>imported = 2, errors = 0, calls = [], printed = [], sink = 2\<rparr>) = 1
   \<and> imported (upsert_batch third_fails 1 five_rows 2
        \<lparr>imported = 2, errors = 0, calls = [], printed = [], sink = 2\<rparr>) = 2
   \<and> (0::nat) < 1
   \<and> clean_organisationsnamn (df_replace five_rows) = Inr five_rows
   \<and> exit_code (import_batches third_fails 1 five_rows 0) = 0"
  using batch_isolation [of third_fails 1 2 five_rows
      "\<lparr>imported = 2, errors = 0, calls = [], printed = [], sink = 2\<rparr>" 3 five_rows five_rows 0]
    five_rows_run
  by (simp add: third_fails_def exit_code_def)

section \<open>Batch sizing\<close>

text \<open>
  C3. For every batch size above 0 and every frame on which the normalisation returns,
  the batches of the loop, taken in order, are the rows of the normalised frame: joined
  together they give the frame back (every row once, in input order), every batch but
  the last has exactly the batch size, and every batch holds between 1 and batch-size
  rows. A frame of 1201 rows and a batch size of 500 give three batches of 500, 500 and
  201 rows. When no row is empty the records sent call by call are the records of the
  rows, batch for batch.
\<close>

theorem batches_cover_in_order:
  "0 < n \<and> clean_organisationsnamn (df_replace df0) = Inr D \<longrightarrow>
     (\<exists>fin. import_batches api n df0 s = Inr fin
            \<and> calls fin = map batch_records (slices n D 0))
     \<and> concat (slices n D 0) = D
     \<and> (\<forall>b \<in> set (butlast (slices n D 0)). length b = n)
     \<and> (\<forall>b \<in> set (slices n D 0). 0 < length b \<and> length b \<le> n)
     \<and> (length D = 1201 \<and> n = 500 \<longrightarrow> map length (slices n D 0) = [500, 500, 201])
     \<and> ((\<forall>r \<in> set D. row_record r \<noteq> []) \<longrightarrow>
           concat (map batch_records (slices n D 0)) = map row_record D
           \<and> map length (map batch_records (slices n D 0)) = map length (slices n D 0))"
proof (intro impI conjI ballI)
  assume a: "0 < n \<and> clean_organisationsnamn (df_replace df0) = Inr D"
  then have pos: "0 < n" and cl: "clean_organisationsnamn (df_replace df0) = Inr D" by simp_all
  from run_facts [OF pos cl, of api s]
  show "\<exists>fin. import_batches api n df0 s = Inr fin
          \<and> calls fin = map batch_records (slices n D 0)"
    by blast
  show "concat (slices n D 0) = D" by (simp add: slices_concat [OF pos])
  {
    fix b assume "b \<in> set (butlast (slices n D 0))"
    then show "length b = n" by (rule slices_full)
  }
  {
    fix b assume b: "b \<in> set (slices n D 0)"
    from slices_sizes [OF b] show "0 < length b" and "length b \<le> n" by simp_all
  }
  {
    assume "length D = 1201 \<and> n = 500"
    then show "map length (slices n D 0) = [500, 500, 201]"
      using slices_1201 by blast
  }
  {
    assume ne: "\<forall>r \<in> set D. row_record r \<noteq> []"
    have eq: "map batch_records (slices n D 0) = map (map row_record) (slices n D 0)"
      using pos ne by (rule records_of_slices)
    have "concat (map batch_records (slices n D 0)) = map row_record (concat (slices n D 0))"
      by (simp add: eq map_concat)
    then show "concat (map batch_records (slices n D 0)) = map row_record D"
      by (simp add: slices_concat [OF pos])
    show "map length (map batch_records (slices n D 0)) = map length (slices n D 0)"
      using eq by simp
  }
qed

lemma id_row_clean:
  "clean_organisationsnamn (df_replace (replicate k (id_row 7)))
     = Inr (replicate k [(''organisationsidentitet'', Num 7), (''organisationsnamn'', Str ''Acme AB'')])"
proof -
  have r: "df_replace (replicate k (id_row 7))
      = replicate k [(''organisationsidentitet'', Num 7), (''organisationsnamn'', Str ''Acme AB$1'')]"
    by (simp add: df_replace_def id_row_def replace_nan_def)
  have "\<not> label_twice (df_replace (replicate k (id_row 7)))"
    by (auto simp: r label_twice_def)
  moreover have "\<forall>v \<in> set (name_cells (df_replace (replicate k (id_row 7)))).
      missing v \<or> (\<exists>s. v = Str s)"
    by (auto simp: r name_cells_def)
  ultimately show ?thesis
    by (simp add: clean_strings r str_split_first_def)
qed

lemma id_row_record:
  "row_record [(''organisationsidentitet'', Num 7), (''organisationsnamn'', Str ''Acme AB'')]
     = [(''organisationsidentitet'', Num 7), (''organisationsnamn'', Str ''Acme AB'')]"
  by (simp add: row_record_def to_dict_def py_eq_self_def)

theorem batches_cover_in_order_witness:
  "(0::nat) < 500
   \<and> clean_organisationsnamn (df_replace (replicate 1201 (id_row 7)))
       = Inr (replicate 1201
           [(''organisationsidentitet'', Num 7), (''organisationsnamn'', Str ''Acme AB'')])
   \<and> length (replicate 1201
        [(''organisationsidentitet'', Num 7), (''organisationsnamn'', Str ''Acme AB'')]) = 1201
   \<and> map length (slices 500 (replicate 1201
        [(''organisationsidentitet'', Num 7), (''organisationsnamn'', Str ''Acme AB'')]) 0)
       = [500, 500, 201]
   \<and> concat (slices 500 (replicate 1201
        [(''organisationsidentitet'', Num 7), (''organisationsnamn'', Str ''Acme AB'')]) 0)
       = replicate 1201 [(''organisationsidentitet'', Num 7), (''organisationsnamn'', Str ''Acme AB'')]
   \<and> concat (map batch_records (slices 500 (replicate 1201
        [(''organisationsidentitet'', Num 7), (''organisationsnamn'', Str ''Acme AB'')]) 0))
       = replicate 1201 [(''organisationsidentitet'', Num 7), (''organisationsnamn'', Str ''Acme AB'')]"
  using batches_cover_in_order [of 500 "replicate 1201 (id_row 7)"
      "replicate 1201 [(''organisationsidentitet'', Num 7), (''organisationsnamn'', Str ''Acme AB'')]"
      always_done "()"]
  by (simp add: id_row_clean id_row_record)

section \<open>The size of a batch sent to the sink\<close>

text \<open>
  C8, as the spec has it, fails: a slice whose rows are all empty gives an empty list of
  records, and the call to the sink is made all the same.
\<close>

theorem empty_batch_counterexample:
  "main always_done [absent_row] () =
     Inr \<lparr>imported = 0, errors = 0, calls = [[]],
          printed = [Importing 1 1 0, Progress 0 1], sink = ()\<rparr>"
  by (simp add: run_defs absent_row_def always_done_def)

text \<open>
  C8, amended. In a run that gets past the normalisation, every list of records passed
  to an upsert call has between 0 and \<open>BATCH_SIZE\<close> records: it is built from a slice of
  between 1 and \<open>BATCH_SIZE\<close> rows, holds at most one record per row, and is empty
  exactly when every row of the slice gives an empty record.
\<close>

theorem batch_size_bound:
  "clean_organisationsnamn (df_replace df0) = Inr D \<longrightarrow>
   (\<exists>fin. main api df0 s = Inr fin
     \<and> calls fin = map batch_records (slices BATCH_SIZE D 0)
     \<and> (\<forall>p \<in> set (calls fin). length p \<le> BATCH_SIZE)
     \<and> (\<forall>b \<in> set (slices BATCH_SIZE D 0).
           1 \<le> length b \<and> length b \<le> BATCH_SIZE
           \<and> length (batch_records b) \<le> length b
           \<and> (batch_records b = [] \<longleftrightarrow> (\<forall>r \<in> set b. row_record r = []))))"
proof
  assume cl: "clean_organisationsnamn (df_replace df0) = Inr D"
  from main_facts [OF cl, of api s] obtain fin where m: "main api df0 s = Inr fin"
    and c: "calls fin = map batch_records (slices BATCH_SIZE D 0)"
    by blast
  have sizes: "1 \<le> length b \<and> length b \<le> BATCH_SIZE" if "b \<in> set (slices BATCH_SIZE D 0)" for b
    using slices_sizes [OF that] by (cases b) simp_all
  have "length p \<le> BATCH_SIZE" if "p \<in> set (calls fin)" for p
  proof -
    from that c obtain b where "b \<in> set (slices BATCH_SIZE D 0)" and "p = batch_records b"
      by auto
    with sizes [of b] batch_records_length [of b] show ?thesis by simp
  qed
  with m c sizes batch_records_length batch_records_Nil
  show "\<exists>fin. main api df0 s = Inr fin
     \<and> calls fin = map batch_records (slices BATCH_SIZE D 0)
     \<and> (\<forall>p \<in> set (calls fin). length p \<le> BATCH_SIZE)
     \<and> (\<forall>b \<in> set (slices BATCH_SIZE D 0).
           1 \<le> length b \<and> length b \<le> BATCH_SIZE
           \<and> length (batch_records b) \<le> length b
           \<and> (batch_records b = [] \<longleftrightarrow> (\<forall>r \<in> set b. row_record r = [])))"
    by (intro exI [of _ fin]) simp
qed

theorem batch_size_bound_witness:
  "clean_organisationsnamn (df_replace [absent_row, id_row 7])
     = Inr [[(''organisationsidentitet'', PyNone), (''organisationsnamn'', PyNone)],
            [(''organisationsidentitet'', Num 7), (''organisationsnamn'', Str ''Acme AB'')]]
   \<and> slices BATCH_SIZE
        [[(''organisationsidentitet'', PyNone), (''organisationsnamn'', PyNone)],
         [(''organisationsidentitet'', Num 7), (''organisationsnamn'', Str ''Acme AB'')]] 0
     = [[[(''organisationsidentitet'', PyNone), (''organisationsnamn'', PyNone)],
         [(''organisationsidentitet'', Num 7), (''organisationsnamn'', Str ''Acme AB'')]]]
   \<and> (\<exists>fin. main always_done [absent_row, id_row 7] () = Inr fin
         \<and> calls fin = [[[(''organisationsidentitet'', Num 7), (''organisationsnamn'', Str ''Acme AB'')]]])"
  using batch_size_bound [of "[absent_row, id_row 7]"
      "[[(''organisationsidentitet'', PyNone), (''organisationsnamn'', PyNone)],
        [(''organisationsidentitet'', Num 7), (''organisationsnamn'', Str ''Acme AB'')]]"
      always_done "()"]
  by (simp add: run_defs slices.simps absent_row_def id_row_def always_done_def)

section \<open>The fields of a record\<close>

lemma upsert_row_keeps:
  assumes "\<forall>(k, v) \<in> set rcd. v \<noteq> PyNone \<and> v \<noteq> NaN" and "i < length t" and "(t ! i) f = Some v"
  shows "i < length (upsert_row key (map_of rcd) t)
     \<and> (\<exists>v'. (upsert_row key (map_of rcd) t ! i) f = Some v'
           \<and> (v' = v \<or> (map_of rcd f = Some v' \<and> v' \<noteq> PyNone \<and> v' \<noteq> NaN)))"
proof (cases "\<exists>old \<in> set t. old key = map_of rcd key")
  case True
  then have u: "upsert_row key (map_of rcd) t
      = map (\<lambda>old. if old key = map_of rcd key then old ++ map_of rcd else old) t"
    by (simp add: upsert_row_def)
  show ?thesis
  proof (cases "map_of rcd f")
    case None
    with assms(2,3) show ?thesis by (simp add: u map_add_def)
  next
    case (Some w)
    then have "(f, w) \<in> set rcd" by (rule map_of_SomeD)
    with assms(1) have "w \<noteq> PyNone \<and> w \<noteq> NaN" by auto
    with Some assms(2,3) show ?thesis by (simp add: u map_add_def)
  qed
next
  case False
  then have "upsert_row key (map_of rcd) t = t @ [map_of rcd]" by (simp add: upsert_row_def)
  with assms(2,3) show ?thesis by (simp add: nth_append)
qed

text \<open>
  C9. The record built from a row holds exactly the fields of the row whose value is
  neither \<open>None\<close> nor unequal to itself, in the order of the row; a missing field is
  left out, not sent as a null. In a run that gets past the normalisation the records
  sent, call after call, are exactly the non-empty records of the rows: the record of
  every row that has a present field is in a call, and every record in a call is
  non-empty, is the record of a row, and carries no \<open>None\<close> and no \<open>NaN\<close>. Applied to a
  table by the sink's insert-or-update, such a record leaves every field that a row
  already has either as it was or replaced by a present value, never by a null.
\<close>

theorem record_holds_present_fields:
  "row_record r = filter (\<lambda>(k, v). v \<noteq> PyNone \<and> py_eq_self v) (to_dict r)
   \<and> (distinct (map fst r) \<longrightarrow> row_record r = filter (\<lambda>(k, v). v \<noteq> PyNone \<and> py_eq_self v) r)
   \<and> (clean_organisationsnamn (df_replace df0) = Inr D \<longrightarrow>
        (\<exists>fin. main api df0 s = Inr fin
          \<and> concat (calls fin)
              = filter (\<lambda>rcd. rcd \<noteq> []) (map (\<lambda>r. row_record (normalise_row r)) df0)
          \<and> (\<forall>r0 \<in> set df0. row_record (normalise_row r0) \<noteq> [] \<longrightarrow>
                (\<exists>b \<in> set (calls fin). row_record (normalise_row r0) \<in> set b))
          \<and> (\<forall>b \<in> set (calls fin). \<forall>rcd \<in> set b.
                rcd \<noteq> []
                \<and> (\<exists>r0 \<in> set df0. rcd = row_record (normalise_row r0))
                \<and> (\<forall>(k, v) \<in> set rcd. v \<noteq> PyNone \<and> v \<noteq> NaN))))
   \<and> ((\<forall>(k, v) \<in> set rcd. v \<noteq> PyNone \<and> v \<noteq> NaN) \<and> i < length t \<and> (t ! i) f = Some v \<longrightarrow>
        i < length (upsert_row key (map_of rcd) t)
        \<and> (\<exists>v'. (upsert_row key (map_of rcd) t ! i) f = Some v'
              \<and> (v' = v \<or> (map_of rcd f = Some v' \<and> v' \<noteq> PyNone \<and> v' \<noteq> NaN))))"
proof (intro conjI impI)
  show "row_record r = filter (\<lambda>(k, v). v \<noteq> PyNone \<and> py_eq_self v) (to_dict r)"
    by (simp add: row_record_filter py_eq_self_def)
  show "row_record r = filter (\<lambda>(k, v). v \<noteq> PyNone \<and> py_eq_self v) r"
    if "distinct (map fst r)"
    using that by (simp add: row_record_filter py_eq_self_def to_dict_id)
next
  assume cl: "clean_organisationsnamn (df_replace df0) = Inr D"
  from main_facts [OF cl, of api s] obtain fin where m: "main api df0 s = Inr fin"
    and c: "concat (calls fin)
         = filter (\<lambda>rcd. rcd \<noteq> []) (map (\<lambda>r. row_record (normalise_row r)) df0)"
    by blast
  have a: "\<exists>b \<in> set (calls fin). row_record (normalise_row r0) \<in> set b"
    if "r0 \<in> set df0" and "row_record (normalise_row r0) \<noteq> []" for r0
    using c that by (rule row_record_sent)
  have b: "rcd \<noteq> [] \<and> (\<exists>r0 \<in> set df0. rcd = row_record (normalise_row r0))
          \<and> (\<forall>(k, v) \<in> set rcd. v \<noteq> PyNone \<and> v \<noteq> NaN)"
    if "b \<in> set (calls fin)" and "rcd \<in> set b" for b rcd
  proof -
    from that have "rcd \<in> set (concat (calls fin))" by auto
    then obtain r0 where r0: "r0 \<in> set df0" "rcd = row_record (normalise_row r0)" "rcd \<noteq> []"
      by (auto simp: c)
    moreover have "\<forall>(k, v) \<in> set rcd. v \<noteq> PyNone \<and> v \<noteq> NaN"
      by (auto simp: r0(2) row_record_filter)
    ultimately show ?thesis by blast
  qed
  show "\<exists>fin. main api df0 s = Inr fin
          \<and> concat (calls fin)
              = filter (\<lambda>rcd. rcd \<noteq> []) (map (\<lambda>r. row_record (normalise_row r)) df0)
          \<and> (\<forall>r0 \<in> set df0. row_record (normalise_row r0) \<noteq> [] \<longrightarrow>
                (\<exists>b \<in> set (calls fin). row_record (normalise_row r0) \<in> set b))
          \<and> (\<forall>b \<in> set (calls fin). \<forall>rcd \<in> set b.
                rcd \<noteq> []
                \<and> (\<exists>r0 \<in> set df0. rcd = row_record (normalise_row r0))
                \<and> (\<forall>(k, v) \<in> set rcd. v \<noteq> PyNone \<and> v \<noteq> NaN))"
    using m c a b by (intro exI [of _ fin]) simp
next
  assume "(\<forall>(k, v) \<in> set rcd. v \<noteq> PyNone \<and> v \<noteq> NaN) \<and> i < length t \<and> (t ! i) f = Some v"
  then have h: "\<forall>(k, v) \<in> set rcd. v \<noteq> PyNone \<and> v \<noteq> NaN" "i < length t" "(t ! i) f = Some v"
    by simp_all
  from upsert_row_keeps [OF h, of key]
  show "i < length (upsert_row key (map_of rcd) t)"
    and "\<exists>v'. (upsert_row key (map_of rcd) t ! i) f = Some v'
              \<and> (v' = v \<or> (map_of rcd f = Some v' \<and> v' \<noteq> PyNone \<and> v' \<noteq> NaN))"
    by simp_all
qed

lemma mixed_row_run:
  "clean_organisationsnamn (df_replace [mixed_row])
     = Inr [[(''organisationsidentitet'', Str ''5''), (''organisationsnamn'', PyNone),
             (''postadress'', PyNone), (''registreringsland'', Str ''SE'')]]
   \<and> main always_done [mixed_row] ()
     = Inr \<lparr>imported = 1, errors = 0,
            calls = [[[(''organisationsidentitet'', Str ''5''), (''registreringsland'', Str ''SE'')]]],
            printed = [Importing 1 1 1, Progress 1 1], sink = ()\<rparr>"
  by (simp add: run_defs mixed_row_def always_done_def)

theorem record_holds_present_fields_witness:
  "distinct (map fst mixed_row)
   \<and> row_record mixed_row
       = [(''organisationsidentitet'', Str ''5''), (''registreringsland'', Str ''SE'')]
   \<and> clean_organisationsnamn (df_replace [mixed_row])
       = Inr [[(''organisationsidentitet'', Str ''5''), (''organisationsnamn'', PyNone),
               (''postadress'', PyNone), (''registreringsland'', Str ''SE'')]]
   \<and> main always_done [mixed_row] ()
       = Inr \<lparr>imported = 1, errors = 0,
              calls = [[[(''organisationsidentitet'', Str ''5''), (''registreringsland'', Str ''SE'')]]],
              printed = [Importing 1 1 1, Progress 1 1], sink = ()\<rparr>
   \<and> (0::nat) < length [map_of [(''organisationsidentitet'', Str ''5''), (''postadress'', Str ''X'')]]
   \<and> (map_of [(''organisationsidentitet'', Str ''5''), (''postadress'', Str ''X'')]) ''postadress''
       = Some (Str ''X'')
   \<and> (upsert_row on_conflict
         (map_of [(''organisationsidentitet'', Str ''5''), (''registreringsland'', Str ''SE'')])
         [map_of [(''organisationsidentitet'', Str ''5''), (''postadress'', Str ''X'')]] ! 0)
        ''postadress'' = Some (Str ''X'')"
proof -
  have d: "distinct (map fst mixed_row)" by (simp add: mixed_row_def)
  have "distinct (map fst mixed_row) \<longrightarrow>
      row_record mixed_row = filter (\<lambda>(k, v). v \<noteq> PyNone \<and> py_eq_self v) mixed_row"
    by (rule conjunct1 [OF conjunct2 [OF record_holds_present_fields]])
  with d have r: "row_record mixed_row
      = [(''organisationsidentitet'', Str ''5''), (''registreringsland'', Str ''SE'')]"
    by (simp add: mixed_row_def py_eq_self_def)
  have l: "(0::nat) < length [map_of [(''organisationsidentitet'', Str ''5''), (''postadress'', Str ''X'')]]"
    and o: "(map_of [(''organisationsidentitet'', Str ''5''), (''postadress'', Str ''X'')]) ''postadress''
       = Some (Str ''X'')"
    by simp_all
  have u: "(upsert_row on_conflict
         (map_of [(''organisationsidentitet'', Str ''5''), (''registreringsland'', Str ''SE'')])
         [map_of [(''organisationsidentitet'', Str ''5''), (''postadress'', Str ''X'')]] ! 0)
        ''postadress'' = Some (Str ''X'')"
    by (simp add: upsert_row_def on_conflict_def)
  from d r l o u mixed_row_run show ?thesis by (intro conjI) simp_all
qed

section \<open>Empty rows and the summary\<close>

lemma absent_name_cells:
  "all_absent r \<Longrightarrow>
   filter (\<lambda>v. \<not> missing v)
     (map snd (filter (\<lambda>(k, v). k = ''organisationsnamn'') (map (\<lambda>(k, v). (k, replace_nan v)) r)))
   = []"
  by (auto simp: all_absent_def filter_empty_conv missing_def replace_nan_def)

lemma clean_without_absent:
  assumes "clean_organisationsnamn (df_replace (xs @ r # ys)) = Inr D" and "all_absent r"
  shows "\<exists>D'. clean_organisationsnamn (df_replace (xs @ ys)) = Inr D'"
proof -
  from clean_Inr [OF assms(1)]
  have l: "\<not> label_twice (df_replace (xs @ r # ys))"
    and k: "str_accessor_ok (name_cells (df_replace (xs @ r # ys)))" by simp_all
  from l have l': "\<not> label_twice (df_replace (xs @ ys))"
    by (auto simp: label_twice_def df_replace_def)
  have "filter (\<lambda>v. \<not> missing v) (name_cells (df_replace (xs @ r # ys)))
      = filter (\<lambda>v. \<not> missing v) (name_cells (df_replace (xs @ ys)))"
    using absent_name_cells [OF assms(2)] by (simp add: name_cells_def df_replace_def)
  with k have "str_accessor_ok (name_cells (df_replace (xs @ ys)))"
    by (simp add: str_accessor_ok_def)
  with l' show ?thesis by (simp add: clean_organisationsnamn_def)
qed

text \<open>
  C4, as the spec has it, fails: the script keeps no count of skipped rows, and the
  summary (imported, errors) is the same for a frame with no empty row and for the same
  frame with an empty row added.
\<close>

theorem summary_hides_skipped_counterexample:
  "map_sum id summary (main always_done [id_row 7] ()) = Inr (1, 0)
   \<and> map_sum id summary (main always_done [id_row 7, absent_row] ()) = Inr (1, 0)
   \<and> count_empty [id_row 7] = 0
   \<and> count_empty [id_row 7, absent_row] = 1"
  by (simp add: run_defs absent_row_def id_row_def always_done_def summary_def
      count_empty_def all_absent_def)

text \<open>
  C4, amended. A row all of whose cells are missing gives no record and is not sent to
  the sink: in a run that gets past the normalisation the records sent, call after call,
  are the non-empty records of the rows, and they are the same with the row in the frame
  and without it. The summary at the end of the run exposes two counts, the records
  imported (those of the calls that returned) and the batches that raised; no count of
  skipped rows is kept, and the imported count plus the number of all-missing rows never
  exceeds the number of rows. The ratio of imported to total rows is printed once after
  each batch that succeeded, with the imported count reached by then, and not in the
  summary.
\<close>

theorem empty_rows_not_sent:
  "(all_absent r \<longrightarrow> row_record (normalise_row r) = [])
   \<and> (clean_organisationsnamn (df_replace (xs @ r # ys)) = Inr D \<and> all_absent r \<longrightarrow>
        (\<exists>fin fin'. main api (xs @ r # ys) s = Inr fin \<and> main api (xs @ ys) s = Inr fin'
            \<and> concat (calls fin) = concat (calls fin')
            \<and> concat (calls fin)
                = filter (\<lambda>rcd. rcd \<noteq> []) (map (\<lambda>r. row_record (normalise_row r)) (xs @ ys))))
   \<and> (clean_organisationsnamn (df_replace df0) = Inr D0 \<longrightarrow>
        (\<exists>fin. main api df0 s = Inr fin
          \<and> summary fin = (length (concat (accepted api (calls fin) s)), raised api (calls fin) s)
          \<and> imported fin + count_empty df0 \<le> length df0
          \<and> filter is_progress (printed fin)
              = map (\<lambda>k. Progress k (length df0))
                  (running 0 (map length (accepted api (calls fin) s)))))"
proof (intro conjI impI)
  assume "all_absent r"
  then show "row_record (normalise_row r) = []"
    by (intro all_absent_record all_absent_normalise)
next
  assume a: "clean_organisationsnamn (df_replace (xs @ r # ys)) = Inr D \<and> all_absent r"
  then have cl: "clean_organisationsnamn (df_replace (xs @ r # ys)) = Inr D"
    and ab: "all_absent r" by simp_all
  from clean_without_absent [OF cl ab] obtain D'
    where cl': "clean_organisationsnamn (df_replace (xs @ ys)) = Inr D'" by blast
  from main_facts [OF cl, of api s] obtain fin where m: "main api (xs @ r # ys) s = Inr fin"
    and c: "concat (calls fin)
         = filter (\<lambda>rcd. rcd \<noteq> []) (map (\<lambda>r. row_record (normalise_row r)) (xs @ r # ys))"
    by blast
  from main_facts [OF cl', of api s] obtain fin' where m': "main api (xs @ ys) s = Inr fin'"
    and c': "concat (calls fin')
         = filter (\<lambda>rcd. rcd \<noteq> []) (map (\<lambda>r. row_record (normalise_row r)) (xs @ ys))"
    by blast
  have e: "row_record (normalise_row r) = []"
    using ab by (intro all_absent_record all_absent_normalise)
  from c e have "concat (calls fin)
         = filter (\<lambda>rcd. rcd \<noteq> []) (map (\<lambda>r. row_record (normalise_row r)) (xs @ ys))"
    by simp
  with m m' c' show "\<exists>fin fin'. main api (xs @ r # ys) s = Inr fin \<and> main api (xs @ ys) s = Inr fin'
            \<and> concat (calls fin) = concat (calls fin')
            \<and> concat (calls fin)
                = filter (\<lambda>rcd. rcd \<noteq> []) (map (\<lambda>r. row_record (normalise_row r)) (xs @ ys))"
    by (intro exI [of _ fin] exI [of _ fin']) simp
next
  assume cl: "clean_organisationsnamn (df_replace df0) = Inr D0"
  from main_facts [OF cl, of api s] obtain fin where m: "main api df0 s = Inr fin"
    and c: "concat (calls fin)
         = filter (\<lambda>rcd. rcd \<noteq> []) (map (\<lambda>r. row_record (normalise_row r)) df0)"
    and e: "errors fin = raised api (calls fin) s"
    and i: "imported fin = length (concat (accepted api (calls fin) s))"
    and p: "filter is_progress (printed fin)
         = map (\<lambda>k. Progress k (length df0)) (running 0 (map length (accepted api (calls fin) s)))"
    by blast
  have "length (concat (calls fin)) + count_empty df0 \<le> length df0"
    using count_empty_bound [of df0] by (simp add: c records_of_frame)
  with accepted_sublist [of api "calls fin" s] i
  have b: "imported fin + count_empty df0 \<le> length df0" by simp
  show "\<exists>fin. main api df0 s = Inr fin
          \<and> summary fin = (length (concat (accepted api (calls fin) s)), raised api (calls fin) s)
          \<and> imported fin + count_empty df0 \<le> length df0
          \<and> filter is_progress (printed fin)
              = map (\<lambda>k. Progress k (length df0))
                  (running 0 (map length (accepted api (calls fin) s)))"
    using m e i b p by (intro exI [of _ fin]) (simp add: summary_def)
qed

lemma absent_between_run:
  "clean_organisationsnamn (df_replace ([id_row 1] @ absent_row # [id_row 2]))
     = Inr [[(''organisationsidentitet'', Num 1), (''organisationsnamn'', Str ''Acme AB'')],
            [(''organisationsidentitet'', PyNone), (''organisationsnamn'', PyNone)],
            [(''organisationsidentitet'', Num 2), (''organisationsnamn'', Str ''Acme AB'')]]
   \<and> main always_done ([id_row 1] @ absent_row # [id_row 2]) ()
     = Inr \<lparr>imported = 2, errors = 0,
            calls = [[[(''organisationsidentitet'', Num 1), (''organisationsnamn'', Str ''Acme AB'')],
                      [(''organisationsidentitet'', Num 2), (''organisationsnamn'', Str ''Acme AB'')]]],
            printed = [Importing 1 1 2, Progress 2 3], sink = ()\<rparr>"
  by (simp add: run_defs absent_row_def id_row_def always_done_def)

theorem empty_rows_not_sent_witness:
  "all_absent absent_row
   \<and> row_record (normalise_row absent_row) = []
   \<and> clean_organisationsnamn (df_replace ([id_row 1] @ absent_row # [id_row 2]))
     = Inr [[(''organisationsidentitet'', Num 1), (''organisationsnamn'', Str ''Acme AB'')],
            [(''organisationsidentitet'', PyNone), (''organisationsnamn'', PyNone)],
            [(''organisationsidentitet'', Num 2), (''organisationsnamn'', Str ''Acme AB'')]]
   \<and> main always_done ([id_row 1] @ absent_row # [id_row 2]) ()
     = Inr \<lparr>imported = 2, errors = 0,
            calls = [[[(''organisationsidentitet'', Num 1), (''organisationsnamn'', Str ''Acme AB'')],
                      [(''organisationsidentitet'', Num 2), (''organisationsnamn'', Str ''Acme AB'')]]],
            printed = [Importing 1 1 2, Progress 2 3], sink = ()\<rparr>"
proof -
  have a: "all_absent absent_row" by (simp add: all_absent_def absent_row_def)
  have "all_absent absent_row \<longrightarrow> row_record (normalise_row absent_row) = []"
    by (rule conjunct1 [OF empty_rows_not_sent])
  with a have "row_record (normalise_row absent_row) = []" by simp
  with a absent_between_run show ?thesis by simp
qed

section \<open>Missing values on the way to the sink\<close>

text \<open>
  C1, as the spec has it, fails on the upsert path for each of the three spellings: an
  empty string and the string \<open>\N\<close> are sent to the sink as they are, and for a \<open>NaN\<close>
  nothing is sent at all, the field is missing from the record instead of being a null.
\<close>

theorem stray_strings_counterexample:
  "main always_done [stray_row] () =
     Inr \<lparr>imported = 1, errors = 0,
          calls = [[[(''organisationsidentitet'', Str ''1''),
                     (''verksamhetsbeskrivning'', Str ''''),
                     (''postadress'', Str [CHR 0x5C, CHR ''N''])]]],
          printed = [Importing 1 1 1, Progress 1 1], sink = ()\<rparr>"
  by (simp add: run_defs stray_row_def na_rep_def always_done_def)

text \<open>
  C1, amended. In a run of the upsert path that gets past the normalisation, a native
  missing value (\<open>NaN\<close> or \<open>None\<close>) never reaches the sink: no record of any call
  carries one, and a field that is missing in a row is left out of the record of that
  row. A string cell outside the name column, the empty string and \<open>\N\<close> included,
  is not canonicalised: it is in the record sent for its row, unchanged. The CSV
  converter writes a native missing value as the token that the \<open>COPY\<close> statement
  declares as its null.
\<close>

theorem native_absent_never_sent:
  "(clean_organisationsnamn (df_replace df0) = Inr D \<longrightarrow>
      (\<exists>fin. main api df0 s = Inr fin
        \<and> (\<forall>b \<in> set (calls fin). \<forall>rcd \<in> set b. \<forall>(k, v) \<in> set rcd. v \<noteq> PyNone \<and> v \<noteq> NaN)
        \<and> (\<forall>r \<in> set df0. distinct (map fst r) \<longrightarrow>
              (\<forall>k v. (k, v) \<in> set r \<and> (v = PyNone \<or> v = NaN) \<longrightarrow>
                 k \<notin> fst ` set (row_record (normalise_row r))))
        \<and> (\<forall>r \<in> set df0. distinct (map fst r) \<longrightarrow>
              (\<forall>k t. (k, Str t) \<in> set r \<and> k \<noteq> ''organisationsnamn'' \<longrightarrow>
                 (k, Str t) \<in> set (row_record (normalise_row r))
                 \<and> (\<exists>b \<in> set (calls fin). row_record (normalise_row r) \<in> set b)))))
   \<and> csv_field single PyNone = copy_null \<and> csv_field single NaN = copy_null"
proof (intro conjI impI)
  assume cl: "clean_organisationsnamn (df_replace df0) = Inr D"
  from main_facts [OF cl, of api s] obtain fin where m: "main api df0 s = Inr fin"
    and c: "concat (calls fin)
         = filter (\<lambda>rcd. rcd \<noteq> []) (map (\<lambda>r. row_record (normalise_row r)) df0)"
    by blast
  have p1: "\<forall>(k, v) \<in> set rcd. v \<noteq> PyNone \<and> v \<noteq> NaN"
    if "b \<in> set (calls fin)" and "rcd \<in> set b" for b rcd
  proof -
    from that have "rcd \<in> set (concat (calls fin))" by auto
    then obtain r0 where "rcd = row_record (normalise_row r0)" by (auto simp: c)
    then show ?thesis by (auto simp: row_record_filter)
  qed
  have p2: "k \<notin> fst ` set (row_record (normalise_row r))"
    if d: "distinct (map fst r)" and kv: "(k, v) \<in> set r" and ab: "v = PyNone \<or> v = NaN"
    for r k v
  proof
    from normalise_row_absent [OF kv ab] obtain v'
      where v': "(k, v') \<in> set (normalise_row r)" "v' = PyNone \<or> v' = NaN" by blast
    from d have dn: "distinct (map fst (normalise_row r))" by (simp add: normalise_row_keys)
    assume "k \<in> fst ` set (row_record (normalise_row r))"
    then obtain w where w: "(k, w) \<in> set (normalise_row r)" "w \<noteq> PyNone" "w \<noteq> NaN"
      by (auto simp: row_record_normalised [OF d])
    from eq_key_imp_eq_value [OF dn w(1) v'(1)] have "w = v'" .
    with w v'(2) show False by auto
  qed
  have p3: "(k, Str t) \<in> set (row_record (normalise_row r))
        \<and> (\<exists>b \<in> set (calls fin). row_record (normalise_row r) \<in> set b)"
    if r: "r \<in> set df0" and d: "distinct (map fst r)" and kt: "(k, Str t) \<in> set r"
      and k: "k \<noteq> ''organisationsnamn''" for r k t
  proof -
    from normalise_row_other [OF kt k]
    have i: "(k, Str t) \<in> set (row_record (normalise_row r))"
      by (simp add: row_record_normalised [OF d])
    then have "row_record (normalise_row r) \<noteq> []" by auto
    with c r have "\<exists>b \<in> set (calls fin). row_record (normalise_row r) \<in> set b"
      by (intro row_record_sent [of "calls fin" df0]) simp_all
    with i show ?thesis by simp
  qed
  have q1: "\<forall>b \<in> set (calls fin). \<forall>rcd \<in> set b. \<forall>(k, v) \<in> set rcd. v \<noteq> PyNone \<and> v \<noteq> NaN"
    using p1 by (intro ballI) simp
  have q2: "\<forall>r \<in> set df0. distinct (map fst r) \<longrightarrow>
              (\<forall>k v. (k, v) \<in> set r \<and> (v = PyNone \<or> v = NaN) \<longrightarrow>
                 k \<notin> fst ` set (row_record (normalise_row r)))"
  proof (intro ballI impI allI)
    fix r :: row and k v
    assume "distinct (map fst r)" and "(k, v) \<in> set r \<and> (v = PyNone \<or> v = NaN)"
    then show "k \<notin> fst ` set (row_record (normalise_row r))" using p2 [of r k v] by simp
  qed
  have q3: "\<forall>r \<in> set df0. distinct (map fst r) \<longrightarrow>
              (\<forall>k t. (k, Str t) \<in> set r \<and> k \<noteq> ''organisationsnamn'' \<longrightarrow>
                 (k, Str t) \<in> set (row_record (normalise_row r))
                 \<and> (\<exists>b \<in> set (calls fin). row_record (normalise_row r) \<in> set b))"
  proof (intro ballI impI allI)
    fix r :: row and k t
    assume "r \<in> set df0" and "distinct (map fst r)"
      and "(k, Str t) \<in> set r \<and> k \<noteq> ''organisationsnamn''"
    then show "(k, Str t) \<in> set (row_record (normalise_row r))
        \<and> (\<exists>b \<in> set (calls fin). row_record (normalise_row r) \<in> set b)"
      using p3 [of r k t] by simp
  qed
  from m q1 q2 q3
  show "\<exists>fin. main api df0 s = Inr fin
        \<and> (\<forall>b \<in> set (calls fin). \<forall>rcd \<in> set b. \<forall>(k, v) \<in> set rcd. v \<noteq> PyNone \<and> v \<noteq> NaN)
        \<and> (\<forall>r \<in> set df0. distinct (map fst r) \<longrightarrow>
              (\<forall>k v. (k, v) \<in> set r \<and> (v = PyNone \<or> v = NaN) \<longrightarrow>
                 k \<notin> fst ` set (row_record (normalise_row r))))
        \<and> (\<forall>r \<in> set df0. distinct (map fst r) \<longrightarrow>
              (\<forall>k t. (k, Str t) \<in> set r \<and> k \<noteq> ''organisationsnamn'' \<longrightarrow>
                 (k, Str t) \<in> set (row_record (normalise_row r))
                 \<and> (\<exists>b \<in> set (calls fin). row_record (normalise_row r) \<in> set b)))"
    by (intro exI [of _ fin] conjI)
next
  show "csv_field single PyNone = copy_null" by (simp add: csv_field_def na_rep_def copy_null_def)
  show "csv_field single NaN = copy_null" by (simp add: csv_field_def na_rep_def copy_null_def)
qed

lemma stray_row_clean:
  "clean_organisationsnamn (df_replace [stray_row])
     = Inr [[(''organisationsidentitet'', Str ''1''), (''verksamhetsbeskrivning'', Str ''''),
             (''postadress'', Str na_rep), (''registreringsland'', PyNone)]]"
  by (simp add: run_defs stray_row_def)

theorem native_absent_never_sent_witness:
  "clean_organisationsnamn (df_replace [stray_row])
     = Inr [[(''organisationsidentitet'', Str ''1''), (''verksamhetsbeskrivning'', Str ''''),
             (''postadress'', Str na_rep), (''registreringsland'', PyNone)]]
   \<and> stray_row \<in> set [stray_row] \<and> distinct (map fst stray_row)
   \<and> (''registreringsland'', NaN) \<in> set stray_row
   \<and> (''verksamhetsbeskrivning'', Str '''') \<in> set stray_row
   \<and> ''verksamhetsbeskrivning'' \<noteq> ''organisationsnamn''
   \<and> (\<exists>fin. main always_done [stray_row] () = Inr fin
        \<and> ''registreringsland'' \<notin> fst ` set (row_record (normalise_row stray_row))
        \<and> (''verksamhetsbeskrivning'', Str '''') \<in> set (row_record (normalise_row stray_row))
        \<and> (\<exists>b \<in> set (calls fin). row_record (normalise_row stray_row) \<in> set b))"
proof -
  have h: "stray_row \<in> set [stray_row]" "distinct (map fst stray_row)"
    "(''registreringsland'', NaN) \<in> set stray_row"
    "(''verksamhetsbeskrivning'', Str '''') \<in> set stray_row"
    "''verksamhetsbeskrivning'' \<noteq> ''organisationsnamn''"
    by (simp_all add: stray_row_def)
  note T = conjunct1 [OF native_absent_never_sent
      [of "[stray_row]"
        "[[(''organisationsidentitet'', Str ''1''), (''verksamhetsbeskrivning'', Str ''''),
           (''postadress'', Str na_rep), (''registreringsland'', PyNone)]]" always_done "()"],
      THEN mp, OF stray_row_clean]
  from T obtain fin where m: "main always_done [stray_row] () = Inr fin"
    and a: "\<forall>r \<in> set [stray_row]. distinct (map fst r) \<longrightarrow>
              (\<forall>k v. (k, v) \<in> set r \<and> (v = PyNone \<or> v = NaN) \<longrightarrow>
                 k \<notin> fst ` set (row_record (normalise_row r)))"
    and b: "\<forall>r \<in> set [stray_row]. distinct (map fst r) \<longrightarrow>
              (\<forall>k t. (k, Str t) \<in> set r \<and> k \<noteq> ''organisationsnamn'' \<longrightarrow>
                 (k, Str t) \<in> set (row_record (normalise_row r))
                 \<and> (\<exists>b \<in> set (calls fin). row_record (normalise_row r) \<in> set b))"
    by (elim exE conjE)
  from a [rule_format, of stray_row "''registreringsland''" NaN] h
  have 1: "''registreringsland'' \<notin> fst ` set (row_record (normalise_row stray_row))"
    by simp
  from b [rule_format, of stray_row "''verksamhetsbeskrivning''" "''''"] h
  have 2: "(''verksamhetsbeskrivning'', Str '''') \<in> set (row_record (normalise_row stray_row))
      \<and> (\<exists>b \<in> set (calls fin). row_record (normalise_row stray_row) \<in> set b)"
    by simp
  from m 1 2 have "\<exists>fin. main always_done [stray_row] () = Inr fin
        \<and> ''registreringsland'' \<notin> fst ` set (row_record (normalise_row stray_row))
        \<and> (''verksamhetsbeskrivning'', Str '''') \<in> set (row_record (normalise_row stray_row))
        \<and> (\<exists>b \<in> set (calls fin). row_record (normalise_row stray_row) \<in> set b)"
    by (intro exI [of _ fin] conjI) simp_all
  with h stray_row_clean show ?thesis by simp
qed

section \<open>The bulk copy\<close>

text \<open>
  C5. When the streaming transfer of a bulk-copy run raises, on whatever row and
  whatever it had written into the open transaction by then, nothing of it is committed:
  the sink's table is what it was before the run, and the process exits with status 1.
  The table changes only through a transfer that returned, followed by the commit.
\<close>

theorem bulk_copy_failure_atomic:
  "(connect_ok w \<and> csv_file w = Some (h # rest) \<and> copy_expert w rest t0 = (t1, Some e) \<longrightarrow>
      table (import_csv_direct w t0) = t0 \<and> exit_status (import_csv_direct w t0) = 1)
   \<and> (table (import_csv_direct w t0) = t0
       \<or> (\<exists>h rest t1. connect_ok w \<and> csv_file w = Some (h # rest)
             \<and> copy_expert w rest t0 = (t1, None) \<and> table (import_csv_direct w t0) = t1))"
  by (auto simp: import_csv_direct_def commit_def Let_def
      split: option.splits list.splits prod.splits)

theorem bulk_copy_failure_atomic_witness:
  "connect_ok failing_world
   \<and> csv_file failing_world = Some (''organisationsidentitet,organisationsnamn'' # [''1,A'', ''1,B''])
   \<and> copy_expert failing_world [''1,A'', ''1,B''] [''0,Z''] = ([''0,Z'', ''1,A''], Some DatabaseError)
   \<and> table (import_csv_direct failing_world [''0,Z'']) = [''0,Z'']
   \<and> exit_status (import_csv_direct failing_world [''0,Z'']) = 1"
  using bulk_copy_failure_atomic [of failing_world "''organisationsidentitet,organisationsnamn''"
      "[''1,A'', ''1,B'']" "[''0,Z'']" "[''0,Z'', ''1,A'']" DatabaseError]
  by (simp add: failing_world_def)

text \<open>
  C10. The bulk-copy loader drops the first line of the CSV file whatever it holds:
  for a file with at least one line exactly the lines after the first are handed to the
  transfer, and the outcome of the run does not depend on the first line, so a data row
  in first place is lost without any error. An empty file ends the run with status 1
  before any transfer.
\<close>

theorem bulk_copy_drops_first_line:
  "(connect_ok w \<and> csv_file w = Some (l # ls) \<longrightarrow>
      streamed (import_csv_direct w t0) = Some ls
      \<and> import_csv_direct (w\<lparr>csv_file := Some (l' # ls)\<rparr>) t0 = import_csv_direct w t0)
   \<and> (connect_ok w \<and> csv_file w = Some [] \<longrightarrow>
        streamed (import_csv_direct w t0) = None
        \<and> table (import_csv_direct w t0) = t0
        \<and> exit_status (import_csv_direct w t0) = 1)"
  by (auto simp: import_csv_direct_def commit_def Let_def
      split: option.splits list.splits prod.splits)

theorem bulk_copy_drops_first_line_witness:
  "connect_ok headerless_world
   \<and> csv_file headerless_world = Some (''1,A'' # [''2,B''])
   \<and> streamed (import_csv_direct headerless_world []) = Some [''2,B'']
   \<and> table (import_csv_direct headerless_world []) = [''2,B'']
   \<and> exit_status (import_csv_direct headerless_world []) = 0"
  using bulk_copy_drops_first_line [of headerless_world "''1,A''" "[''2,B'']" "[]" "''1,A''"]
  by (simp add: headerless_world_def import_csv_direct_def commit_def Let_def)

section \<open>Idempotence of the upsert path\<close>

lemma apply_records_snoc:
  "apply_records key (R @ [r]) t = upsert_row key r (apply_records key R t)"
  by (simp add: apply_records_def)

lemma apply_records_append:
  "apply_records key (A @ B) t = apply_records key B (apply_records key A t)"
  by (simp add: apply_records_def)

lemma add_same_key: "old key = r key \<Longrightarrow> (old ++ r) key = old key"
  by (simp add: map_add_def split: option.split)

lemma upsert_row_present:
  "\<exists>old \<in> set t. old key = r key \<Longrightarrow>
   upsert_row key r t = map (\<lambda>old. if old key = r key then old ++ r else old) t"
  by (simp add: upsert_row_def)

lemma upsert_row_absent:
  "\<not> (\<exists>old \<in> set t. old key = r key) \<Longrightarrow> upsert_row key r t = t @ [r]"
  by (simp add: upsert_row_def)

lemma upsert_row_key_list:
  "\<exists>old \<in> set t. old key = r key \<Longrightarrow>
   map (\<lambda>row. row key) (upsert_row key r t) = map (\<lambda>row. row key) t"
  by (simp add: upsert_row_present add_same_key)

lemma upsert_row_keys:
  "(\<lambda>row. row key) ` set (upsert_row key r t) = insert (r key) ((\<lambda>row. row key) ` set t)"
proof (cases "\<exists>old \<in> set t. old key = r key")
  case True
  have "map (\<lambda>row. row key) (upsert_row key r t) = map (\<lambda>row. row key) t"
    using True upsert_row_key_list [of t key r] by simp
  then have "set (map (\<lambda>row. row key) (upsert_row key r t)) = set (map (\<lambda>row. row key) t)"
    by simp
  moreover from True obtain old where "r key = old key" "old \<in> set t" by metis
  then have "r key \<in> (\<lambda>row. row key) ` set t" by (rule image_eqI)
  ultimately show ?thesis by auto
next
  case False
  then show ?thesis by (simp add: upsert_row_absent)
qed

lemma apply_records_keys:
  "(\<lambda>row. row key) ` set (apply_records key R t)
     = (\<lambda>row. row key) ` set t \<union> (\<lambda>r. r key) ` set R"
  by (induction R rule: rev_induct)
     (auto simp: apply_records_snoc upsert_row_keys, auto simp: apply_records_def)

lemma merged_Nil: "merged key [] ko = Map.empty"
  by (simp add: merged_def)

lemma merged_snoc:
  "merged key (R @ [r]) ko = (if r key = ko then merged key R ko ++ r else merged key R ko)"
  by (simp add: merged_def)

lemma merged_none: "ko \<notin> (\<lambda>r. r key) ` set R \<Longrightarrow> merged key R ko = Map.empty"
proof -
  assume "ko \<notin> (\<lambda>r. r key) ` set R"
  then have "filter (\<lambda>r. r key = ko) R = []" by (auto simp: filter_empty_conv)
  then show ?thesis by (simp add: merged_def)
qed

lemma merged_key: "merged key R ko key = None \<or> merged key R ko key = ko"
  by (induction R rule: rev_induct)
     (auto simp: merged_Nil merged_snoc map_add_def split: option.split)

lemma row_merged_key: "(row ++ merged key R (row key)) key = row key"
  using merged_key [of key R "row key"] by (auto simp: map_add_def split: option.split)

lemma add_absorb: "a ++ m = a \<Longrightarrow> (a ++ r) ++ (m ++ r) = a ++ r"
proof (rule ext)
  fix f
  assume "a ++ m = a"
  then have "(a ++ m) f = a f" by simp
  then show "((a ++ r) ++ (m ++ r)) f = (a ++ r) f"
    by (auto simp: map_add_def split: option.splits)
qed

lemma add_self: "(r :: sink_row) ++ r = r"
  by (rule ext) (simp add: map_add_def split: option.split)

lemma apply_records_covered:
  "(\<lambda>r. r key) ` set R \<subseteq> (\<lambda>row. row key) ` set t \<Longrightarrow>
   apply_records key R t = map (\<lambda>row. row ++ merged key R (row key)) t"
proof (induction R rule: rev_induct)
  case Nil
  show ?case by (simp add: apply_records_def merged_Nil)
next
  case (snoc r R)
  let ?F = "\<lambda>row. row ++ merged key R (row key)"
  from snoc.prems have ih: "apply_records key R t = map ?F t" by (intro snoc.IH) auto
  from snoc.prems obtain old where old: "old \<in> set t" "old key = r key" by auto
  have "?F old key = old key" by (rule row_merged_key)
  then have "?F old key = r key" by (simp only: old(2))
  moreover have "?F old \<in> set (map ?F t)" using old(1) by simp
  ultimately have pres: "\<exists>x \<in> set (map ?F t). x key = r key" by blast
  have "apply_records key (R @ [r]) t = upsert_row key r (map ?F t)"
    by (simp add: apply_records_snoc ih)
  also have "\<dots> = map (\<lambda>x. if x key = r key then x ++ r else x) (map ?F t)"
    using pres upsert_row_present [of "map ?F t" key r] by simp
  also have "\<dots> = map (\<lambda>row. row ++ merged key (R @ [r]) (row key)) t"
    by (auto simp: row_merged_key merged_snoc)
  finally show ?case .
qed

lemma apply_records_saturated:
  "\<forall>row \<in> set (apply_records key R t). row ++ merged key R (row key) = row"
proof (induction R rule: rev_induct)
  case Nil
  show ?case by (simp add: merged_Nil)
next
  case (snoc r R)
  let ?T = "apply_records key R t"
  show ?case
  proof (cases "\<exists>old \<in> set ?T. old key = r key")
    case True
    have "x ++ merged key (R @ [r]) (x key) = x"
      if "x \<in> set (map (\<lambda>old. if old key = r key then old ++ r else old) ?T)" for x
    proof -
      from that obtain old where old: "old \<in> set ?T"
        and x: "x = (if old key = r key then old ++ r else old)" by auto
      from snoc.IH old have sat: "old ++ merged key R (old key) = old" by blast
      show ?thesis
      proof (cases "old key = r key")
        case True
        then have xk: "x key = r key" using x add_same_key [of old key r] by simp
        have "(old ++ r) ++ (merged key R (old key) ++ r) = old ++ r"
          using sat by (rule add_absorb)
        then show ?thesis using True x xk by (simp add: merged_snoc)
      next
        case False
        then show ?thesis using x sat by (auto simp: merged_snoc)
      qed
    qed
    then show ?thesis
      using True upsert_row_present [of ?T key r] by (simp add: apply_records_snoc)
  next
    case False
    then have "r key \<notin> (\<lambda>row. row key) ` set ?T" by auto
    then have "r key \<notin> (\<lambda>r. r key) ` set R" by (simp add: apply_records_keys)
    then have "merged key R (r key) = Map.empty" by (rule merged_none)
    then have r: "r ++ merged key (R @ [r]) (r key) = r" by (simp add: merged_snoc add_self)
    have "x ++ merged key (R @ [r]) (x key) = x" if "x \<in> set ?T" for x
    proof -
      from that False have "x key \<noteq> r key" by auto
      with snoc.IH that show ?thesis by (auto simp: merged_snoc)
    qed
    with r show ?thesis
      using False upsert_row_absent [of ?T key r] by (simp add: apply_records_snoc)
  qed
qed

lemma apply_records_idem:
  "apply_records key R (apply_records key R t) = apply_records key R t"
proof -
  let ?T = "apply_records key R t"
  have "(\<lambda>r. r key) ` set R \<subseteq> (\<lambda>row. row key) ` set ?T"
    by (simp add: apply_records_keys)
  then have "apply_records key R ?T = map (\<lambda>row. row ++ merged key R (row key)) ?T"
    by (rule apply_records_covered)
  also have "\<dots> = ?T"
    using apply_records_saturated [of key R t] by (intro map_idI) blast
  finally show ?thesis .
qed

lemma upsert_row_distinct:
  "distinct (map (\<lambda>row. row key) t) \<Longrightarrow> distinct (map (\<lambda>row. row key) (upsert_row key r t))"
proof (cases "\<exists>old \<in> set t. old key = r key")
  case True
  assume "distinct (map (\<lambda>row. row key) t)"
  moreover have "map (\<lambda>row. row key) (upsert_row key r t) = map (\<lambda>row. row key) t"
    using True upsert_row_key_list [of t key r] by simp
  ultimately show ?thesis by simp
next
  case False
  assume "distinct (map (\<lambda>row. row key) t)"
  with False show ?thesis by (auto simp: upsert_row_absent)
qed

lemma apply_records_distinct:
  "distinct (map (\<lambda>row. row key) t) \<Longrightarrow>
   distinct (map (\<lambda>row. row key) (apply_records key R t))"
  by (induction R rule: rev_induct)
     (simp_all add: apply_records_snoc upsert_row_distinct, simp add: apply_records_def)

lemma one_row_per_key:
  "distinct (map f xs) \<Longrightarrow> y \<in> f ` set xs \<Longrightarrow> length (filter (\<lambda>x. f x = y) xs) = 1"
proof (induction xs)
  case Nil
  then show ?case by simp
next
  case (Cons x xs)
  show ?case
  proof (cases "f x = y")
    case True
    with Cons.prems have "filter (\<lambda>x. f x = y) xs = []"
      by (auto simp: filter_empty_conv image_iff)
    with True show ?thesis by simp
  next
    case False
    with Cons show ?thesis by auto
  qed
qed

lemma merged_last:
  "\<forall>r' \<in> set R2. r' key \<noteq> r key \<Longrightarrow>
   merged key (R1 @ r # R2) (r key) = merged key R1 (r key) ++ r"
proof -
  assume "\<forall>r' \<in> set R2. r' key \<noteq> r key"
  then have "filter (\<lambda>r'. r' key = r key) R2 = []" by (auto simp: filter_empty_conv)
  then show ?thesis by (simp add: merged_def)
qed

lemma apply_records_last_wins:
  assumes "\<forall>r' \<in> set R2. r' key \<noteq> r key"
  shows "\<exists>row \<in> set (apply_records key (R1 @ r # R2) t).
           row key = r key \<and> (\<forall>f v. r f = Some v \<longrightarrow> row f = Some v)"
proof -
  let ?R = "R1 @ r # R2"
  have "r key \<in> (\<lambda>row. row key) ` set (apply_records key ?R t)"
    by (simp add: apply_records_keys)
  then obtain row where row: "row \<in> set (apply_records key ?R t)" "row key = r key" by auto
  with apply_records_saturated [of key ?R t]
  have "row ++ merged key ?R (r key) = row" by auto
  then have sat: "row ++ (merged key R1 (r key) ++ r) = row"
    using assms merged_last [of R2 key r R1] by simp
  have "row f = Some v" if "r f = Some v" for f v
  proof -
    from sat have "(row ++ (merged key R1 (r key) ++ r)) f = row f" by simp
    with that show ?thesis by (simp add: map_add_def)
  qed
  with row show ?thesis by blast
qed

lemma sink_after_applied:
  "sink_after sink_upsert ps t = apply_records on_conflict (applied on_conflict ps) t"
proof (induction ps arbitrary: t)
  case Nil
  show ?case by (simp add: applied_def apply_records_def)
next
  case (Cons p ps)
  show ?case
  proof (cases "\<forall>rcd \<in> set p. map_of rcd on_conflict \<noteq> None")
    case True
    then have a: "applied on_conflict (p # ps) = map map_of p @ applied on_conflict ps"
      by (simp add: applied_def)
    have "sink_upsert p on_conflict t = Done (apply_records on_conflict (map map_of p) t)"
      using True by (simp add: sink_upsert_def apply_records_def foldl_map)
    then show ?thesis by (simp add: Cons.IH a apply_records_append)
  next
    case False
    then have a: "applied on_conflict (p # ps) = applied on_conflict ps"
      by (auto simp: applied_def)
    have "sink_upsert p on_conflict t = Raised t" using False by (simp add: sink_upsert_def)
    then show ?thesis by (simp add: Cons.IH a)
  qed
qed

lemma applied_all:
  "\<forall>p \<in> set ps. \<forall>rcd \<in> set p. map_of rcd key \<noteq> None \<Longrightarrow>
   applied key ps = map map_of (concat ps)"
  by (induction ps) (simp_all add: applied_def)

lemma final_table_applied:
  "final_table df0 t = apply_records on_conflict (applied on_conflict (sent df0)) t"
proof (cases "clean_organisationsnamn (df_replace df0)")
  case (Inl e)
  then show ?thesis
    by (simp add: final_table_def sent_def main_def import_batches_def applied_def
        apply_records_def)
next
  case (Inr D)
  from main_facts [OF Inr, of sink_upsert t] obtain fin
    where m: "main sink_upsert df0 t = Inr fin"
      and c: "calls fin = map batch_records (slices BATCH_SIZE D 0)"
      and k: "sink fin = sink_after sink_upsert (calls fin) t"
    by blast
  from c Inr have "calls fin = sent df0" by (simp add: sent_def)
  with m k show ?thesis by (simp add: final_table_def sink_after_applied)
qed

text \<open>
  C2. Against a sink that inserts a record or updates the row with the same value of
  \<open>organisationsidentitet\<close>, running the upsert path a second time over the same input
  leaves the table exactly as the first run left it (same rows, same content). A run
  that gets past the normalisation sends the records of its slices and ends with that
  table; a run that stops at line 46 makes no call and leaves the table as it was. If
  the table held at most one row per key value before, it does so afterwards, with
  exactly one row for the key value of every record applied; and that row carries every
  field of the last record applied for its key.
\<close>

theorem upsert_idempotent:
  "final_table df0 (final_table df0 t) = final_table df0 t
   \<and> (clean_organisationsnamn (df_replace df0) = Inr D \<longrightarrow>
        (\<exists>fin. main sink_upsert df0 t = Inr fin \<and> sink fin = final_table df0 t
           \<and> calls fin = sent df0))
   \<and> (clean_organisationsnamn (df_replace df0) = Inl e \<longrightarrow>
        main sink_upsert df0 t = Inl e \<and> final_table df0 t = t \<and> sent df0 = [])
   \<and> (distinct (map (\<lambda>row. row on_conflict) t) \<longrightarrow>
        distinct (map (\<lambda>row. row on_conflict) (final_table df0 t))
        \<and> (\<forall>r \<in> set (applied on_conflict (sent df0)).
              length (filter (\<lambda>row. row on_conflict = r on_conflict) (final_table df0 t)) = 1))
   \<and> (applied on_conflict (sent df0) = R1 @ r # R2
        \<and> (\<forall>r' \<in> set R2. r' on_conflict \<noteq> r on_conflict) \<longrightarrow>
        (\<exists>row \<in> set (final_table df0 t).
           row on_conflict = r on_conflict \<and> (\<forall>f v. r f = Some v \<longrightarrow> row f = Some v)))
   \<and> ((\<forall>p \<in> set (sent df0). \<forall>rcd \<in> set p. map_of rcd on_conflict \<noteq> None) \<longrightarrow>
        applied on_conflict (sent df0) = map map_of (concat (sent df0)))"
proof (intro conjI impI ballI)
  let ?R = "applied on_conflict (sent df0)"
  {
    assume "\<forall>p \<in> set (sent df0). \<forall>rcd \<in> set p. map_of rcd on_conflict \<noteq> None"
    then show "applied on_conflict (sent df0) = map map_of (concat (sent df0))"
      by (rule applied_all)
  }
  show "final_table df0 (final_table df0 t) = final_table df0 t"
    by (simp add: final_table_applied apply_records_idem)
  {
    assume cl: "clean_organisationsnamn (df_replace df0) = Inr D"
    from main_facts [OF cl, of sink_upsert t] obtain fin
      where m: "main sink_upsert df0 t = Inr fin"
        and c: "calls fin = map batch_records (slices BATCH_SIZE D 0)"
      by blast
    from m c cl show "\<exists>fin. main sink_upsert df0 t = Inr fin \<and> sink fin = final_table df0 t
           \<and> calls fin = sent df0"
      by (intro exI [of _ fin]) (simp add: final_table_def sent_def)
  }
  {
    assume cl: "clean_organisationsnamn (df_replace df0) = Inl e"
    then show "main sink_upsert df0 t = Inl e" and "final_table df0 t = t" and "sent df0 = []"
      by (simp_all add: final_table_def sent_def main_def import_batches_def)
  }
  {
    assume d: "distinct (map (\<lambda>row. row on_conflict) t)"
    then show d': "distinct (map (\<lambda>row. row on_conflict) (final_table df0 t))"
      by (simp add: final_table_applied apply_records_distinct)
    fix r assume "r \<in> set ?R"
    then have "r on_conflict \<in> (\<lambda>row. row on_conflict) ` set (final_table df0 t)"
      by (simp add: final_table_applied apply_records_keys)
    with d' show "length (filter (\<lambda>row. row on_conflict = r on_conflict) (final_table df0 t)) = 1"
      by (rule one_row_per_key)
  }
  {
    assume a: "?R = R1 @ r # R2 \<and> (\<forall>r' \<in> set R2. r' on_conflict \<noteq> r on_conflict)"
    then have "\<forall>r' \<in> set R2. r' on_conflict \<noteq> r on_conflict" by simp
    with apply_records_last_wins [of R2 on_conflict r R1 t] a
    show "\<exists>row \<in> set (final_table df0 t).
           row on_conflict = r on_conflict \<and> (\<forall>f v. r f = Some v \<longrightarrow> row f = Some v)"
      by (simp add: final_table_applied)
  }
qed

lemma dup_rows_sent:
  "clean_organisationsnamn (df_replace dup_rows) = Inr dup_rows
   \<and> sent dup_rows =
     [[[(''organisationsidentitet'', Str ''1''), (''organisationsnamn'', Str ''A'')],
       [(''organisationsidentitet'', Str ''2''), (''organisationsnamn'', Str ''C'')],
       [(''organisationsidentitet'', Str ''1''), (''organisationsnamn'', Str ''B'')]]]"
  by (simp add: sent_def run_defs slices.simps dup_rows_def)

lemma dup_rows_final:
  "length (final_table dup_rows []) = 2
   \<and> hd (final_table dup_rows []) ''organisationsnamn'' = Some (Str ''B'')"
  by (simp add: final_table_applied dup_rows_sent applied_def apply_records_def
      upsert_row_def on_conflict_def)

text \<open>
  A frame whose name column holds a number ends in \<open>AttributeError\<close>: no call is made
  and the table is left as it was.
\<close>

lemma number_name_raises:
  "main sink_upsert [[(''organisationsidentitet'', Str ''1''), (''organisationsnamn'', Num 5)]] t
     = Inl AttributeError
   \<and> exit_code (main sink_upsert
        [[(''organisationsidentitet'', Str ''1''), (''organisationsnamn'', Num 5)]] t) = 1
   \<and> main sink_upsert [[(''organisationsnamn'', Str ''A''), (''organisationsnamn'', Str ''B'')]] t
     = Inl AttributeError"
  by (simp add: run_defs exit_code_def)

theorem upsert_idempotent_witness:
  "distinct (map (\<lambda>row. row on_conflict) ([] :: sink_table))
   \<and> clean_organisationsnamn (df_replace dup_rows) = Inr dup_rows
   \<and> list_all (list_all (\<lambda>rcd. map_of rcd on_conflict \<noteq> None)) (sent dup_rows)
   \<and> applied on_conflict (sent dup_rows)
       = [map_of [(''organisationsidentitet'', Str ''1''), (''organisationsnamn'', Str ''A'')],
          map_of [(''organisationsidentitet'', Str ''2''), (''organisationsnamn'', Str ''C'')]]
         @ map_of [(''organisationsidentitet'', Str ''1''), (''organisationsnamn'', Str ''B'')] # []
   \<and> final_table dup_rows (final_table dup_rows []) = final_table dup_rows []
   \<and> distinct (map (\<lambda>row. row on_conflict) (final_table dup_rows []))
   \<and> length (final_table dup_rows []) = 2
   \<and> hd (final_table dup_rows []) ''organisationsnamn'' = Some (Str ''B'')"
  using upsert_idempotent [of dup_rows "[]" dup_rows AttributeError
      "[map_of [(''organisationsidentitet'', Str ''1''), (''organisationsnamn'', Str ''A'')],
        map_of [(''organisationsidentitet'', Str ''2''), (''organisationsnamn'', Str ''C'')]]"
      "map_of [(''organisationsidentitet'', Str ''1''), (''organisationsnamn'', Str ''B'')]" "[]"]
    dup_rows_final
  by (simp add: dup_rows_sent applied_def on_conflict_def)

end
